theory Spec2Isabelle
  imports Complex_Main "HOL-Library.AList" "HOL-Library.Multiset"
begin

section \<open>Data model\<close>

text \<open>
  The indexer of \<^verbatim>\<open>crawler_web/Crawler_logic.py\<close> works on Python dictionaries.
  A dictionary is modelled as an association list with pairwise distinct keys, in
  insertion order, as Python keeps it: \<open>map_of\<close> reads a key, \<open>AList.update\<close> stores
  one (in place when the key exists, at the end otherwise).

  Weights are Python floats. They are modelled as real numbers. The arithmetic of the
  posting builder and of the scores is exact; the sums of the merge are rounded to
  doubles, since there the order of the additions depends on the order of the
  segments.
\<close>

type_synonym posting_list = "(string \<times> real) list"
type_synonym index = "(string \<times> posting_list) list"

text \<open>\<^verbatim>\<open>d.get(k, default)\<close>, and the read that a \<^verbatim>\<open>defaultdict\<close> does.\<close>

definition dict_get :: "('k \<times> 'v) list \<Rightarrow> 'k \<Rightarrow> 'v \<Rightarrow> 'v" where
  "dict_get d k dflt = (case map_of d k of None \<Rightarrow> dflt | Some v \<Rightarrow> v)"

text \<open>The keys of a dictionary, and the test \<^verbatim>\<open>k in d\<close>.\<close>

definition keys :: "('k \<times> 'v) list \<Rightarrow> 'k list" where
  "keys d = map fst d"

definition has_key :: "('k \<times> 'v) list \<Rightarrow> 'k \<Rightarrow> bool" where
  "has_key d k = (k \<in> set (keys d))"

text \<open>
  Where several weights are added up, in the merge of the segments, the rounding of
  each sum matters. \<open>round_double\<close> rounds a real number to the nearest IEEE double,
  a tie going to the even significand of 53 bits; it is meant inside the normal range
  (no overflow, no subnormal numbers). \<open>float_add\<close> is Python's \<^verbatim>\<open>+\<close> on two floats,
  and \<open>is_double\<close> holds of the reals that are doubles.
\<close>

definition round_half_even :: "real \<Rightarrow> int" where
  "round_half_even y =
     (let f = \<lfloor>y\<rfloor>
      in if y - of_int f < 1 / 2 then f
         else if 1 / 2 < y - of_int f then f + 1
         else if even f then f else f + 1)"

definition round_double :: "real \<Rightarrow> real" where
  "round_double x =
     (if x = 0 then 0
      else let e = \<lfloor>log 2 \<bar>x\<bar>\<rfloor>
           in of_int (round_half_even (x * 2 powr (52 - of_int e))) * 2 powr (of_int e - 52))"

definition float_add :: "real \<Rightarrow> real \<Rightarrow> real" where
  "float_add x y = round_double (x + y)"

definition is_double :: "real \<Rightarrow> bool" where
  "is_double x = (round_double x = x)"

text \<open>
  \<^verbatim>\<open>inverted_index[token][doc_id] += tf\<close> on a
  \<^verbatim>\<open>defaultdict(lambda: defaultdict(float))\<close>: a missing token gets an empty posting
  list, a missing document the weight 0.0, and the sum is stored.
\<close>

definition add_posting :: "index \<Rightarrow> string \<Rightarrow> string \<Rightarrow> real \<Rightarrow> index" where
  "add_posting inverted_index token doc_id tf =
     (let postings = dict_get inverted_index token []
      in AList.update token
           (AList.update doc_id (dict_get postings doc_id 0 + tf) postings)
           inverted_index)"

text \<open>
  The same statement with the sum rounded as the machine does it. The merge uses it:
  there one entry may receive several weights.
\<close>

definition add_posting_float :: "index \<Rightarrow> string \<Rightarrow> string \<Rightarrow> real \<Rightarrow> index" where
  "add_posting_float final_index token doc_id tf =
     (let postings = dict_get final_index token []
      in AList.update token
           (AList.update doc_id (float_add (dict_get postings doc_id 0) tf) postings)
           final_index)"

text \<open>
  The weight an index holds for a term and a document, 0 where the pair is absent:
  \<^verbatim>\<open>inverted_index[token].get(doc, 0)\<close> under the guard
  \<^verbatim>\<open>token in inverted_index\<close>.
\<close>

definition weight :: "index \<Rightarrow> string \<Rightarrow> string \<Rightarrow> real" where
  "weight inverted_index token doc = dict_get (dict_get inverted_index token []) doc 0"

text \<open>The value stored for a term and a document, \<open>None\<close> where the pair is absent.\<close>

definition entry :: "index \<Rightarrow> string \<Rightarrow> string \<Rightarrow> real option" where
  "entry idx token doc =
     (case map_of idx token of None \<Rightarrow> None | Some postings \<Rightarrow> map_of postings doc)"

text \<open>
  A well-formed index is a dictionary of dictionaries: no key occurs twice, at either
  level.
\<close>

definition wf_index :: "index \<Rightarrow> bool" where
  "wf_index idx =
     (distinct (keys idx) \<and> list_all (\<lambda>(token, postings). distinct (keys postings)) idx)"

text \<open>
  Two Python dictionaries are equal when they hold the same keys with equal values,
  whatever the insertion order. \<open>index_map\<close> is the mapping an index denotes; two
  indexes are equal as dictionaries exactly when their \<open>index_map\<close>s are equal.
\<close>

definition index_map :: "index \<Rightarrow> string \<rightharpoonup> (string \<rightharpoonup> real)" where
  "index_map idx = (\<lambda>token. map_option map_of (map_of idx token))"

text \<open>
  No term of the index has an empty posting list. It holds of every index that
  \<open>add_posting\<close> builds from the empty one.
\<close>

definition no_empty :: "index \<Rightarrow> bool" where
  "no_empty idx = (\<forall>t m. index_map idx t = Some m \<longrightarrow> m \<noteq> Map.empty)"

text \<open>
  The weights of an index that \<^verbatim>\<open>json.load\<close> returns are doubles.
\<close>

definition double_weights :: "index \<Rightarrow> bool" where
  "double_weights idx =
     list_all (\<lambda>(token, postings). list_all (\<lambda>(doc, w). is_double w) postings) idx"

text \<open>
  The weights that the segments of a list hold for a term and a document, in the order
  of the list, and their sum as the machine adds it up from 0.0, from left to right.
\<close>

definition pair_weights :: "index list \<Rightarrow> string \<Rightarrow> string \<Rightarrow> real list" where
  "pair_weights segs token doc =
     concat (map (\<lambda>seg. case entry seg token doc of None \<Rightarrow> [] | Some w \<Rightarrow> [w]) segs)"

definition rounded_sum :: "real list \<Rightarrow> real" where
  "rounded_sum ws = foldl float_add 0 ws"

section \<open>Normalizer\<close>

text \<open>
  \<^verbatim>\<open>re.findall(r'\b\w+\b', text.lower())\<close>: the maximal runs of word characters
  of the lower-cased text. Text is modelled as a string of ASCII characters: the word
  characters are the letters, the digits and the underscore.
\<close>

definition is_word_char :: "char \<Rightarrow> bool" where
  "is_word_char c =
     (c \<in> set ''abcdefghijklmnopqrstuvwxyzABCDEFGHIJKLMNOPQRSTUVWXYZ0123456789_'')"

definition lower_char :: "char \<Rightarrow> char" where
  "lower_char c =
     (case map_of (zip ''ABCDEFGHIJKLMNOPQRSTUVWXYZ'' ''abcdefghijklmnopqrstuvwxyz'') c of
        None \<Rightarrow> c | Some l \<Rightarrow> l)"

definition lower :: "string \<Rightarrow> string" where
  "lower text = map lower_char text"

text \<open>
  \<open>find_words cur text\<close> scans \<open>text\<close> with the run \<open>cur\<close> of word characters read
  so far; a run ends at the first other character or at the end of the text.
\<close>

fun find_words :: "string \<Rightarrow> string \<Rightarrow> string list" where
  "find_words cur [] = (if cur = [] then [] else [cur])"
| "find_words cur (c # cs) =
     (if is_word_char c then find_words (cur @ [c]) cs
      else (if cur = [] then [] else [cur]) @ find_words [] cs)"

text \<open>
  The stemmer is NLTK's \<^verbatim>\<open>PorterStemmer\<close>, a library outside the repository. It is
  a parameter \<open>stem\<close> of every function that normalizes text.
\<close>

definition tokenize_and_normalize :: "(string \<Rightarrow> string) \<Rightarrow> string \<Rightarrow> string list" where
  "tokenize_and_normalize stem text = map stem (find_words [] (lower text))"

section \<open>Weighted posting builder\<close>

text \<open>
  The loop \<^verbatim>\<open>for token in tokens: term_frequency[token] += 1\<close> on a
  \<^verbatim>\<open>defaultdict(int)\<close>; \<open>increment\<close> is its body.
\<close>

definition increment :: "string \<Rightarrow> (string \<times> nat) list \<Rightarrow> (string \<times> nat) list" where
  "increment token term_frequency =
     AList.update token (dict_get term_frequency token 0 + 1) term_frequency"

definition count_terms :: "string list \<Rightarrow> (string \<times> nat) list" where
  "count_terms tokens = fold increment tokens []"

text \<open>\<^verbatim>\<open>tf = 0.5 + (0.5 * freq / max_tf)\<close>, the weight before the key-text boost.\<close>

definition tf_weight :: "nat \<Rightarrow> nat \<Rightarrow> real" where
  "tf_weight freq max_tf = 0.5 + (0.5 * real freq / real max_tf)"

text \<open>\<^verbatim>\<open>if token in key_tokens: tf *= 2\<close>.\<close>

definition boost :: "string list \<Rightarrow> string \<Rightarrow> real \<Rightarrow> real" where
  "boost key_tokens token tf = (if token \<in> set key_tokens then tf * 2 else tf)"

text \<open>
  \<open>build_inverted_index\<close> updates the index it is given and the global table
  \<^verbatim>\<open>doc_lengths\<close>; the model returns both. A document without tokens changes neither.
\<close>

definition build_inverted_index ::
  "string \<Rightarrow> string list \<Rightarrow> string list \<Rightarrow> index \<Rightarrow> (string \<times> real) list
     \<Rightarrow> index \<times> (string \<times> real) list" where
  "build_inverted_index doc_id tokens key_tokens inverted_index doc_lengths =
     (let term_frequency = count_terms tokens
      in if term_frequency = [] then (inverted_index, doc_lengths)
         else
           let max_tf = Max (set (map snd term_frequency));
               inverted_index' =
                 fold (\<lambda>(token, freq) idx.
                         add_posting idx token doc_id
                           (boost key_tokens token (tf_weight freq max_tf)))
                      term_frequency inverted_index;
               sum_of_squares = fold (\<lambda>tf s. s + tf ^ 2) (map snd term_frequency) 0
           in (inverted_index',
               AList.update doc_id (sqrt (real sum_of_squares)) doc_lengths))"

section \<open>Segment storage and merge\<close>

text \<open>
  The segment files are a partial map from file names to the index each one holds:
  \<^verbatim>\<open>json.dump\<close> followed by \<^verbatim>\<open>json.load\<close> gives the dictionary back. A name
  without a value is a file that \<^verbatim>\<open>open\<close> or \<^verbatim>\<open>json.load\<close> fails on.
\<close>

type_synonym disk = "string \<rightharpoonup> index"

text \<open>\<^verbatim>\<open>str(n)\<close> for a natural number, as the f-string of the file name needs it.\<close>

definition digit :: "nat \<Rightarrow> char" where
  "digit n = ''0123456789'' ! (n mod 10)"

function str_nat :: "nat \<Rightarrow> string" where
  "str_nat n = (if n < 10 then [digit n] else str_nat (n div 10) @ [digit n])"
  by pat_completeness auto
termination
  by (relation "measure (\<lambda>n. n)") auto

declare str_nat.simps [simp del]

text \<open>The file name \<^verbatim>\<open>f"partial_index_{part_num}.json"\<close>.\<close>

definition partial_index_name :: "nat \<Rightarrow> string" where
  "partial_index_name part_num = ''partial_index_'' @ str_nat part_num @ ''.json''"

text \<open>
  Reading the part number back from such a name, \<^verbatim>\<open>int(name[14:-5])\<close>: \<open>decimal\<close> is
  the number that a string of decimal digits denotes.
\<close>

definition decimal :: "string \<Rightarrow> nat" where
  "decimal s = foldl (\<lambda>v c. 10 * v + (of_char c - 48)) 0 s"

definition part_number_of :: "string \<Rightarrow> nat" where
  "part_number_of name = decimal (rev (drop 5 (rev (drop 14 name))))"

definition save_partial_index :: "index \<Rightarrow> nat \<Rightarrow> disk \<Rightarrow> string \<times> disk" where
  "save_partial_index inverted_index part_num files =
     (let output_filename = partial_index_name part_num
      in (output_filename, files(output_filename \<mapsto> inverted_index)))"

datatype error = Segment_unreadable string

text \<open>
  The two inner loops of \<open>merge_partial_indexes\<close>, over the postings of a token and
  over the tokens of a segment.
\<close>

definition merge_postings :: "index \<Rightarrow> string \<Rightarrow> posting_list \<Rightarrow> index" where
  "merge_postings final_index token postings =
     fold (\<lambda>(doc_id, tf) final. add_posting_float final token doc_id tf) postings final_index"

definition merge_segment :: "index \<Rightarrow> index \<Rightarrow> index" where
  "merge_segment final_index partial_index =
     fold (\<lambda>(token, postings) final. merge_postings final token postings)
          partial_index final_index"

text \<open>
  The outer loop. A segment that cannot be read raises in the source, and nothing
  catches it: the merge ends with the error.
\<close>

fun merge_files :: "disk \<Rightarrow> string list \<Rightarrow> index \<Rightarrow> error + index" where
  "merge_files files [] final_index = Inr final_index"
| "merge_files files (partial # rest) final_index =
     (case files partial of
        None \<Rightarrow> Inl (Segment_unreadable partial)
      | Some partial_index \<Rightarrow> merge_files files rest (merge_segment final_index partial_index))"

definition merge_partial_indexes ::
  "disk \<Rightarrow> string list \<Rightarrow> string \<Rightarrow> error + (index \<times> disk)" where
  "merge_partial_indexes files partial_files output_filename =
     (case merge_files files partial_files [] of
        Inl e \<Rightarrow> Inl e
      | Inr final_index \<Rightarrow> Inr (final_index, files(output_filename \<mapsto> final_index)))"

section \<open>Boolean query evaluator\<close>

text \<open>
  \<^verbatim>\<open>set.intersection(*doc_sets)\<close> on a non-empty list is the first set intersected
  with each of the others in turn.
\<close>

definition Bool_Search :: "(string \<Rightarrow> string) \<Rightarrow> string \<Rightarrow> index \<Rightarrow> string set" where
  "Bool_Search stem queries inverted_index =
     (let tokens = tokenize_and_normalize stem queries
      in if tokens = [] then {}
         else
           let doc_sets = map (\<lambda>token. set (keys (dict_get inverted_index token [])))
                              (filter (has_key inverted_index) tokens)
           in case doc_sets of
                [] \<Rightarrow> {}
              | first # others \<Rightarrow> fold (\<lambda>s result. result \<inter> s) others first)"

section \<open>Ranked retrieval\<close>

text \<open>
  The sort key of \<open>print_top_5_urls\<close>:
  \<^verbatim>\<open>sum(inverted_index[token].get(doc, 0) for token in query_tokens if token in inverted_index)\<close>.
\<close>

definition doc_score :: "index \<Rightarrow> string list \<Rightarrow> string \<Rightarrow> real" where
  "doc_score inverted_index query_tokens doc =
     sum_list (map (\<lambda>token. weight inverted_index token doc)
                   (filter (has_key inverted_index) query_tokens))"

text \<open>
  \<^verbatim>\<open>sorted(xs, key=k, reverse=True)\<close> is a stable sort by descending key: elements
  with equal keys keep the order they have in \<open>xs\<close>. \<open>sort_key\<close> is a stable
  insertion sort by ascending key, so sorting by the negated key is the same list.
\<close>

definition sorted_reverse :: "('a \<Rightarrow> real) \<Rightarrow> 'a list \<Rightarrow> 'a list" where
  "sorted_reverse k xs = sort_key (\<lambda>x. - k x) xs"

text \<open>
  \<open>result_docs\<close> is a Python set, and \<open>sorted\<close> reads it through its iterator. The
  model takes the set as the list of its elements in iteration order. The table
  \<^verbatim>\<open>doc_id_to_url\<close> is a global of the module: here an argument.
\<close>

definition top_docs :: "string list \<Rightarrow> index \<Rightarrow> string list \<Rightarrow> string list" where
  "top_docs result_docs inverted_index query_tokens =
     (let ranked_docs = sorted_reverse (doc_score inverted_index query_tokens) result_docs
      in take 5 ranked_docs)"

definition print_top_5_urls ::
  "(string \<Rightarrow> string) \<Rightarrow> (string \<times> string) list \<Rightarrow> string list \<Rightarrow> index \<Rightarrow> string
     \<Rightarrow> string list" where
  "print_top_5_urls stem doc_id_to_url result_docs inverted_index query =
     (let query_tokens = tokenize_and_normalize stem query
      in map (\<lambda>doc_id. dict_get doc_id_to_url doc_id ''URL Not Found'')
             (top_docs result_docs inverted_index query_tokens))"

section \<open>Ingestion\<close>

text \<open>
  What \<^verbatim>\<open>open\<close> and \<^verbatim>\<open>json.load\<close> give for a path of the corpus: \<open>Unreadable\<close> when
  either raises or the value loaded is not an object, else the object's
  \<^verbatim>\<open>content\<close> and \<^verbatim>\<open>url\<close> fields (strings), where it has them.
\<close>

datatype json_file = Unreadable | Json_object "string option" "string option"

definition read_json_file :: "(string \<Rightarrow> json_file) \<Rightarrow> string \<Rightarrow> string \<times> string" where
  "read_json_file fs filepath =
     (case fs filepath of
        Unreadable \<Rightarrow> ([], [])
      | Json_object content url \<Rightarrow>
          (case content of None \<Rightarrow> [] | Some c \<Rightarrow> c, case url of None \<Rightarrow> [] | Some u \<Rightarrow> u))"

text \<open>
  The body of the \<^verbatim>\<open>try\<close> block of \<open>extract_text_from_html\<close> runs on BeautifulSoup,
  a library outside the repository. It is the parameter \<open>parse\<close>, which gives the
  text and the key text, or \<open>None\<close> when the block raises.
\<close>

definition extract_text_from_html ::
  "(string \<Rightarrow> (string \<times> string) option) \<Rightarrow> string \<Rightarrow> string \<times> string" where
  "extract_text_from_html parse htmlContent =
     (case parse htmlContent of None \<Rightarrow> ([], []) | Some (text, key_text) \<Rightarrow> (text, key_text))"

definition endswith :: "string \<Rightarrow> string \<Rightarrow> bool" where
  "endswith s suf = (length suf \<le> length s \<and> drop (length s - length suf) s = suf)"

text \<open>\<^verbatim>\<open>os.path.join\<close> of two components, on POSIX.\<close>

definition path_join :: "string \<Rightarrow> string \<Rightarrow> string" where
  "path_join root_dir file =
     (if file \<noteq> [] \<and> hd file = CHR ''/'' then file
      else if root_dir = [] \<or> last root_dir = CHR ''/'' then root_dir @ file
      else root_dir @ ''/'' @ file)"

text \<open>
  The local variables of \<open>process_all_documents\<close>, the two global tables of the
  module, and the segment files written so far.
\<close>

record ingest =
  doc_count :: nat
  part_num :: nat
  partial_files :: "string list"
  inverted_index :: index
  doc_id_to_url :: "(string \<times> string) list"
  doc_lengths :: "(string \<times> real) list"
  segments :: disk

text \<open>Saving the index in memory as the next segment.\<close>

definition flush :: "ingest \<Rightarrow> ingest" where
  "flush st =
     (let (partial_filename, files) =
            save_partial_index (inverted_index st) (part_num st) (segments st)
      in st\<lparr>segments := files, partial_files := partial_files st @ [partial_filename]\<rparr>)"

text \<open>The body of the inner loop, for one file name of one directory.\<close>

definition process_file ::
  "(string \<Rightarrow> string) \<Rightarrow> (string \<Rightarrow> (string \<times> string) option) \<Rightarrow> (string \<Rightarrow> json_file)
     \<Rightarrow> string \<Rightarrow> string \<Rightarrow> ingest \<Rightarrow> ingest" where
  "process_file stem parse fs root_dir file st =
     (if endswith file ''.json'' then
        let file_path = path_join root_dir file;
            (content, url) = read_json_file fs file_path
        in if content = [] then st
           else
             let (text, key_text) = extract_text_from_html parse content;
                 tokens = tokenize_and_normalize stem text;
                 key_tokens = tokenize_and_normalize stem key_text;
                 (idx, lens) = build_inverted_index file_path tokens key_tokens
                                 (inverted_index st) (doc_lengths st);
                 st1 = st\<lparr>inverted_index := idx, doc_lengths := lens,
                          doc_id_to_url := AList.update file_path url (doc_id_to_url st),
                          doc_count := doc_count st + 1\<rparr>
             in if doc_count st1 mod 10000 = 0
                then (flush st1)\<lparr>part_num := part_num st1 + 1, inverted_index := []\<rparr>
                else st1
      else st)"

text \<open>
  \<^verbatim>\<open>os.walk\<close> gives the directories with the files of each; the two nested loops
  run over them.
\<close>

definition ingest_loop ::
  "(string \<Rightarrow> string) \<Rightarrow> (string \<Rightarrow> (string \<times> string) option) \<Rightarrow> (string \<Rightarrow> json_file)
     \<Rightarrow> (string \<times> string list) list \<Rightarrow> ingest \<Rightarrow> ingest" where
  "ingest_loop stem parse fs walk st =
     fold (\<lambda>(root_dir, files) st'. fold (process_file stem parse fs root_dir) files st') walk st"

text \<open>
  The state before the loops: the counters at their first values, the two global
  tables and the files as they are when \<open>process_all_documents\<close> is called.
\<close>

definition start :: "(string \<times> string) list \<Rightarrow> (string \<times> real) list \<Rightarrow> disk \<Rightarrow> ingest" where
  "start urls lens files =
     \<lparr>doc_count = 0, part_num = 1, partial_files = [], inverted_index = [],
      doc_id_to_url = urls, doc_lengths = lens, segments = files\<rparr>"

text \<open>
  The value returned is the field \<open>partial_files\<close> of the final state; the other
  fields are the effects of the run.
\<close>

definition process_all_documents ::
  "(string \<Rightarrow> string) \<Rightarrow> (string \<Rightarrow> (string \<times> string) option) \<Rightarrow> (string \<Rightarrow> json_file)
     \<Rightarrow> (string \<times> string list) list
     \<Rightarrow> (string \<times> string) list \<Rightarrow> (string \<times> real) list \<Rightarrow> disk \<Rightarrow> ingest" where
  "process_all_documents stem parse fs walk urls lens files =
     (let st = ingest_loop stem parse fs walk (start urls lens files)
      in if inverted_index st \<noteq> [] then flush st else st)"


text \<open>
  The invariant of the two loops: the part number is one more than the number of
  batches completed, and the segment names recorded are those of the parts written, in
  order.
\<close>

definition flush_invariant :: "ingest \<Rightarrow> bool" where
  "flush_invariant st =
     (part_num st = doc_count st div 10000 + 1 \<and>
      partial_files st = map partial_index_name [1 ..< part_num st])"

section \<open>The scenario of the specification\<close>

text \<open>
  The index of the two documents of the specification's scenarios: D1 with body tokens
  \<open>[cat, dog, cat]\<close> and no key tokens, D2 with body tokens \<open>[dog]\<close> and key tokens
  \<open>[dog]\<close>.
\<close>

definition scenario_index :: index where
  "scenario_index = [(''cat'', [(''D1'', 1)]), (''dog'', [(''D1'', 3 / 4), (''D2'', 2)])]"

text \<open>
  An index in which two documents hold both of two terms, and a table of their URLs.
\<close>

definition two_term_index :: index where
  "two_term_index =
     [(''dog'', [(''D1'', 1), (''D2'', 2)]), (''cat'', [(''D1'', 5 / 2), (''D2'', 1)])]"

definition two_urls :: "(string \<times> string) list" where
  "two_urls = [(''D1'', ''http://one''), (''D2'', ''http://two'')]"


text \<open>
  A segment that holds the posting \<open>(cat, D1, 1.0)\<close> and one that holds
  \<open>(dog, D2, 2.0)\<close>; two files that hold one each, and two files that both hold the
  first.
\<close>

definition cat_segment :: index where
  "cat_segment = [(''cat'', [(''D1'', 1)])]"

definition dog_segment :: index where
  "dog_segment = [(''dog'', [(''D2'', 2)])]"

definition disjoint_segments :: disk where
  "disjoint_segments =
     [''partial_index_1.json'' \<mapsto> cat_segment, ''partial_index_2.json'' \<mapsto> dog_segment]"

definition two_segments :: disk where
  "two_segments = [''partial_index_1.json'' \<mapsto> cat_segment, ''partial_index_2.json'' \<mapsto> cat_segment]"

text \<open>
  Three segment files that hold one posting each for \<open>(cat, D1)\<close>, with the weights
  0.6666666666666666, 0.75 and 1.3333333333333333: the doubles nearest to 2/3 and 4/3,
  and 3/4.
\<close>

definition three_segments :: disk where
  "three_segments =
     [''partial_index_1.json'' \<mapsto> [(''cat'', [(''D1'', 6004799503160661 / 9007199254740992)])],
      ''partial_index_2.json'' \<mapsto> [(''cat'', [(''D1'', 3 / 4)])],
      ''partial_index_3.json'' \<mapsto> [(''cat'', [(''D1'', 6004799503160661 / 4503599627370496)])]]"

text \<open>
  A corpus of one directory: a readable document, a file that cannot be read, a
  document whose HTML the parser fails on, and a file that is not JSON.
\<close>

definition small_fs :: "string \<Rightarrow> json_file" where
  "small_fs path =
     (if path = ''r/a.json'' then Json_object (Some ''dog'') (Some ''http://one'')
      else if path = ''r/c.json'' then Json_object (Some ''<'') (Some ''http://three'')
      else Unreadable)"

definition small_parse :: "string \<Rightarrow> (string \<times> string) option" where
  "small_parse html = (if html = ''<'' then None else Some (html, []))"

definition small_walk :: "(string \<times> string list) list" where
  "small_walk = [(''r'', [''a.json'', ''b.json'', ''c.json'', ''d.txt''])]"

text \<open>A state in which 9999 documents have been processed and none is in memory.\<close>

definition before_flush :: ingest where
  "before_flush =
     \<lparr>doc_count = 9999, part_num = 1, partial_files = [], inverted_index = [],
      doc_id_to_url = [], doc_lengths = [], segments = Map.empty\<rparr>"

section \<open>Properties of the weighted posting builder\<close>

lemma dict_get_update:
  "dict_get (AList.update k v d) k' dflt = (if k' = k then v else dict_get d k' dflt)"
  by (simp add: dict_get_def update_conv')

lemma map_of_increment:
  "map_of (increment x acc) t = (if t = x then Some (dict_get acc x 0 + 1) else map_of acc t)"
  by (simp add: increment_def update_conv')

lemma dict_get_increment:
  "dict_get (increment x acc) t 0 = (if t = x then dict_get acc x 0 + 1 else dict_get acc t 0)"
  by (simp add: increment_def dict_get_update)

lemma map_of_count_fold:
  "map_of (fold increment tokens acc) t =
   (if t \<in> set tokens then Some (dict_get acc t 0 + count_list tokens t) else map_of acc t)"
proof (induction tokens arbitrary: acc)
  case Nil
  show ?case by simp
next
  case (Cons x xs)
  show ?case
    by (simp add: Cons.IH map_of_increment dict_get_increment)
qed

lemma distinct_count_fold:
  "distinct (map fst acc) \<Longrightarrow> distinct (map fst (fold increment tokens acc))"
  by (induction tokens arbitrary: acc) (simp_all add: increment_def distinct_update)

lemma map_of_count_terms:
  "map_of (count_terms tokens) t = (if t \<in> set tokens then Some (count_list tokens t) else None)"
  by (simp add: count_terms_def map_of_count_fold dict_get_def)

lemma distinct_count_terms: "distinct (map fst (count_terms tokens))"
  unfolding count_terms_def by (rule distinct_count_fold) simp

lemma set_count_terms:
  "set (count_terms tokens) = (\<lambda>t. (t, count_list tokens t)) ` set tokens"
proof -
  have "(k, v) \<in> set (count_terms tokens) \<longleftrightarrow> (k \<in> set tokens \<and> v = count_list tokens k)" for k v
    using map_of_eq_Some_iff [OF distinct_count_terms, of tokens k v]
    by (auto simp: map_of_count_terms split: if_splits)
  then show ?thesis by auto
qed

lemma count_terms_Nil_iff: "count_terms tokens = [] \<longleftrightarrow> tokens = []"
  using set_count_terms [of tokens] by (metis image_is_empty set_empty)

lemma keys_count_terms: "set (map fst (count_terms tokens)) = set tokens"
  by (simp add: set_count_terms image_image)

lemma freqs_count_terms: "set (map snd (count_terms tokens)) = count_list tokens ` set tokens"
  by (simp add: set_count_terms image_image)

lemma length_count_terms: "length (count_terms tokens) = card (set tokens)"
  using distinct_card [OF distinct_count_terms, of tokens] keys_count_terms [of tokens]
  by simp

lemma weight_add_posting:
  "weight (add_posting idx token doc_id tf) t d =
     (if t = token \<and> d = doc_id then weight idx t d + tf else weight idx t d)"
  by (simp add: weight_def add_posting_def Let_def dict_get_update)

lemma weight_fold_add_posting:
  "distinct (map fst tfreq) \<Longrightarrow>
   weight (fold (\<lambda>(token, freq) idx. add_posting idx token doc_id (g token freq)) tfreq idx) t d =
     (if d = doc_id then
        (case map_of tfreq t of None \<Rightarrow> weight idx t d | Some freq \<Rightarrow> weight idx t d + g t freq)
      else weight idx t d)"
proof (induction tfreq arbitrary: idx)
  case Nil
  show ?case by simp
next
  case (Cons p ps)
  obtain token freq where p: "p = (token, freq)" by (cases p)
  from Cons.prems p have notin: "map_of ps token = None" and d: "distinct (map fst ps)"
    by (auto simp: map_of_eq_None_iff)
  show ?case
    using notin by (simp add: p Cons.IH [OF d] weight_add_posting split: option.split)
qed

lemma tf_weight_bounds:
  assumes "0 < freq" "freq \<le> max_tf"
  shows "1 / 2 < tf_weight freq max_tf" "tf_weight freq max_tf \<le> 1"
  using assms by (simp_all add: tf_weight_def field_simps)

lemma sum_list_le_length:
  "(\<And>x. x \<in> set xs \<Longrightarrow> f x \<le> (1::real)) \<Longrightarrow> sum_list (map f xs) \<le> real (length xs)"
  by (induction xs) (simp_all add: add_mono)

lemma weight_build_inverted_index:
  "weight (fst (build_inverted_index doc_id tokens key_tokens idx dl)) t d =
     (if d = doc_id \<and> t \<in> set tokens
      then weight idx t d +
           boost key_tokens t
             (tf_weight (count_list tokens t) (Max (count_list tokens ` set tokens)))
      else weight idx t d)"
proof (cases "tokens = []")
  case True
  then show ?thesis by (simp add: build_inverted_index_def count_terms_def)
next
  case False
  then have ne: "count_terms tokens \<noteq> []" by (simp add: count_terms_Nil_iff)
  have "fst (build_inverted_index doc_id tokens key_tokens idx dl) =
        fold (\<lambda>(token, freq) idx. add_posting idx token doc_id
                (boost key_tokens token (tf_weight freq (Max (count_list tokens ` set tokens)))))
             (count_terms tokens) idx"
    using ne freqs_count_terms [of tokens] by (simp add: build_inverted_index_def Let_def)
  then show ?thesis
    by (simp add: weight_fold_add_posting [OF distinct_count_terms] map_of_count_terms)
qed

text \<open>
  Claim C1. For a document with tokens, \<open>build_inverted_index\<close> adds to the entry of
  each of its terms the weight \<open>0.5 + 0.5 * (freq / maxFreq)\<close>, where \<open>maxFreq\<close> is the
  largest raw frequency of a term of the document, doubled once when the term is among
  the key tokens, however often it occurs there. Where the index held no weight for the
  pair, that is the weight recorded. Body tokens \<open>[dog]\<close> with key tokens \<open>[dog]\<close> give
  the weight 2.
\<close>

theorem term_weight_formula:
  "t \<in> set tokens \<Longrightarrow>
     (let w = 0.5 + 0.5 * (real (count_list tokens t) / real (Max (count_list tokens ` set tokens)));
          idx' = fst (build_inverted_index doc_id tokens key_tokens idx dl)
      in weight idx' t doc_id = weight idx t doc_id + (if t \<in> set key_tokens then 2 * w else w) \<and>
         (weight idx t doc_id = 0 \<longrightarrow>
            weight idx' t doc_id = (if t \<in> set key_tokens then 2 * w else w))) \<and>
     weight (fst (build_inverted_index ''D2'' [''dog''] [''dog''] [] [])) ''dog'' ''D2'' = 2"
  by (simp add: weight_build_inverted_index Let_def boost_def tf_weight_def)
     (simp add: weight_def dict_get_def)

theorem term_weight_formula_witness:
  "''dog'' \<in> set [''cat'', ''dog'', ''cat''] \<and>
   weight (fst (build_inverted_index ''D1'' [''cat'', ''dog'', ''cat''] [''cat''] [] []))
     ''dog'' ''D1'' = 3 / 4"
  using term_weight_formula [of "''dog''" "[''cat'', ''dog'', ''cat'']" "''D1''" "[''cat'']" "[]" "[]"]
  by (simp add: weight_def dict_get_def)

text \<open>
  Claim C8. For a document with at least one token, the weight of every term before
  the key-text boost lies in \<open>[0.5, 1]\<close>, every counted term has a non-zero frequency,
  and the sum of these weights is at most the number of distinct terms of the document.
\<close>

theorem preboost_weight_bounds:
  "tokens \<noteq> [] \<Longrightarrow>
     (\<forall>(t, freq) \<in> set (count_terms tokens).
         0 < freq \<and>
         1 / 2 \<le> tf_weight freq (Max (set (map snd (count_terms tokens)))) \<and>
         tf_weight freq (Max (set (map snd (count_terms tokens)))) \<le> 1) \<and>
     (\<Sum>(t, freq) \<leftarrow> count_terms tokens.
         tf_weight freq (Max (set (map snd (count_terms tokens))))) \<le> real (card (set tokens))"
proof -
  assume "tokens \<noteq> []"
  let ?m = "Max (set (map snd (count_terms tokens)))"
  have b: "0 < freq \<and> 1 / 2 < tf_weight freq ?m \<and> tf_weight freq ?m \<le> 1"
    if "(t, freq) \<in> set (count_terms tokens)" for t freq
  proof -
    from that have t: "t \<in> set tokens" and f: "freq = count_list tokens t"
      by (auto simp: set_count_terms)
    have pos: "0 < freq" using t f count_list_0_iff [of tokens t] by simp
    have "freq \<in> set (map snd (count_terms tokens))" using that by force
    then have "freq \<le> ?m" by simp
    with pos show ?thesis using tf_weight_bounds by simp
  qed
  have "(\<Sum>p \<leftarrow> count_terms tokens. case p of (t, freq) \<Rightarrow> tf_weight freq ?m)
          \<le> real (length (count_terms tokens))"
    by (rule sum_list_le_length) (use b in auto)
  then show ?thesis using b by (auto simp: length_count_terms less_imp_le)
qed

theorem preboost_weight_bounds_witness:
  "[''cat'', ''dog'', ''cat''] \<noteq> [] \<and>
   count_terms [''cat'', ''dog'', ''cat''] = [(''cat'', 2), (''dog'', 1)] \<and>
   tf_weight 1 2 = 3 / 4 \<and> tf_weight 2 2 = 1 \<and>
   (\<Sum>(t, freq) \<leftarrow> count_terms [''cat'', ''dog'', ''cat''].
       tf_weight freq (Max (set (map snd (count_terms [''cat'', ''dog'', ''cat'']))))) \<le> 2"
  using preboost_weight_bounds [of "[''cat'', ''dog'', ''cat'']"]
  by (simp add: count_terms_def increment_def dict_get_def tf_weight_def)


section \<open>Properties of the boolean query evaluator\<close>

lemma find_words_sep:
  "\<not> is_word_char c \<Longrightarrow> find_words cur (xs @ c # ys) = find_words cur xs @ find_words [] ys"
  by (induction xs arbitrary: cur) simp_all

lemma tokenize_append:
  "tokenize_and_normalize stem (q @ '' '' @ w) =
     tokenize_and_normalize stem q @ tokenize_and_normalize stem w"
proof -
  have sp: "\<not> is_word_char CHR '' ''" by (simp add: is_word_char_def)
  have "lower (q @ '' '' @ w) = lower q @ CHR '' '' # lower w"
    by (simp add: lower_def lower_char_def)
  then show ?thesis
    by (simp add: tokenize_and_normalize_def find_words_sep [OF sp])
qed

lemma fold_Int: "fold (\<lambda>s result. result \<inter> s) ss a = a \<inter> \<Inter> (set ss)"
  by (induction ss arbitrary: a) auto

lemma Bool_Search_eq:
  "Bool_Search stem queries idx =
     (if filter (has_key idx) (tokenize_and_normalize stem queries) = [] then {}
      else (\<Inter>t \<in> set (filter (has_key idx) (tokenize_and_normalize stem queries)).
              set (keys (dict_get idx t []))))"
proof -
  let ?toks = "tokenize_and_normalize stem queries"
  let ?f = "\<lambda>token. set (keys (dict_get idx token []))"
  let ?sets = "map ?f (filter (has_key idx) ?toks)"
  have B: "Bool_Search stem queries idx =
             (case ?sets of [] \<Rightarrow> {} | first # others \<Rightarrow> fold (\<lambda>s result. result \<inter> s) others first)"
    by (cases "?toks = []") (simp_all add: Bool_Search_def Let_def)
  show ?thesis
  proof (cases ?sets)
    case Nil
    then have "filter (has_key idx) ?toks = []" by simp
    with B Nil show ?thesis by simp
  next
    case (Cons first others)
    then have ne: "filter (has_key idx) ?toks \<noteq> []" by auto
    have "fold (\<lambda>s result. result \<inter> s) others first = \<Inter> (set ?sets)"
      unfolding Cons by (simp add: fold_Int)
    also have "\<dots> = (\<Inter>t \<in> set (filter (has_key idx) ?toks). ?f t)" by simp
    finally have "Bool_Search stem queries idx = (\<Inter>t \<in> set (filter (has_key idx) ?toks). ?f t)"
      using B Cons by simp
    with ne show ?thesis by (simp only: if_False)
  qed
qed

text \<open>
  Claim C2. For every query string, \<open>Bool_Search\<close> returns the intersection, over the
  normalized query terms that are keys of the index, of the sets of DocIDs of their
  posting lists. Terms that are not keys of the index are filtered out and constrain
  nothing. When the normalized query is empty, or none of its terms is a key of the
  index, the result is the empty set; the function has no failing branch.
\<close>

theorem Bool_Search_intersection:
  "Bool_Search stem queries idx =
     (let present = filter (has_key idx) (tokenize_and_normalize stem queries)
      in if present = [] then {} else (\<Inter>t \<in> set present. set (keys (dict_get idx t [])))) \<and>
   (tokenize_and_normalize stem queries = [] \<longrightarrow> Bool_Search stem queries idx = {}) \<and>
   ((\<forall>t \<in> set (tokenize_and_normalize stem queries). \<not> has_key idx t) \<longrightarrow>
      Bool_Search stem queries idx = {})"
proof -
  have "filter (has_key idx) (tokenize_and_normalize stem queries) = []"
    if "\<forall>t \<in> set (tokenize_and_normalize stem queries). \<not> has_key idx t"
    using that by (simp add: filter_empty_conv)
  then show ?thesis
    unfolding Let_def Bool_Search_eq [of stem queries idx] by auto
qed

theorem Bool_Search_intersection_witness:
  "filter (has_key scenario_index)
      (tokenize_and_normalize (\<lambda>w. w) ''cat bird'') = [''cat''] \<and>
   Bool_Search (\<lambda>w. w) ''cat bird''
     scenario_index = {''D1''} \<and>
   tokenize_and_normalize (\<lambda>w. w) '' ?'' = [] \<and>
   Bool_Search (\<lambda>w. w) '' ?'' [(''cat'', [(''D1'', 1)])] = {}"
  using Bool_Search_intersection [of "\<lambda>w. w" "''cat bird''"
          scenario_index]
        Bool_Search_intersection [of "\<lambda>w. w" "'' ?''" "[(''cat'', [(''D1'', 1)])]"]
  by (simp add: tokenize_and_normalize_def lower_def lower_char_def is_word_char_def
        has_key_def keys_def dict_get_def Let_def scenario_index_def)

text \<open>
  Claim C9, as stated, fails: for the query \<open>bird\<close>, no term of which is in the
  index, the result is empty, and the query extended with \<open>cat\<close> returns the
  documents of \<open>cat\<close>.
\<close>

theorem Bool_Search_not_monotonic:
  "\<not> Bool_Search (\<lambda>w. w) (''bird'' @ '' '' @ ''cat'') [(''cat'', [(''D1'', 1)])]
       \<subseteq> Bool_Search (\<lambda>w. w) ''bird'' [(''cat'', [(''D1'', 1)])]"
  by (simp add: Bool_Search_def tokenize_and_normalize_def lower_def lower_char_def
        is_word_char_def has_key_def keys_def dict_get_def)

text \<open>
  Claim C9, amended. When at least one term of the query is a key of the index,
  extending the query yields a subset of the original result. Extending any query with
  terms that are not keys of the index leaves the result unchanged.
\<close>

theorem Bool_Search_monotonic:
  "((\<exists>u \<in> set (tokenize_and_normalize stem q). has_key idx u) \<longrightarrow>
      Bool_Search stem (q @ '' '' @ w) idx \<subseteq> Bool_Search stem q idx) \<and>
   ((\<forall>t \<in> set (tokenize_and_normalize stem w). \<not> has_key idx t) \<longrightarrow>
      Bool_Search stem (q @ '' '' @ w) idx = Bool_Search stem q idx)"
proof -
  let ?tq = "tokenize_and_normalize stem q"
  let ?tw = "tokenize_and_normalize stem w"
  let ?f = "\<lambda>t. set (keys (dict_get idx t []))"
  have E: "Bool_Search stem (q @ '' '' @ w) idx =
             (if filter (has_key idx) ?tq @ filter (has_key idx) ?tw = [] then {}
              else (\<Inter>t \<in> set (filter (has_key idx) ?tq) \<union> set (filter (has_key idx) ?tw). ?f t))"
    unfolding Bool_Search_eq [of stem "q @ '' '' @ w"] tokenize_append by simp
  have 1: "Bool_Search stem (q @ '' '' @ w) idx \<subseteq> Bool_Search stem q idx"
    if "\<exists>u \<in> set ?tq. has_key idx u"
  proof -
    from that have "filter (has_key idx) ?tq \<noteq> []" by (simp add: filter_empty_conv)
    then show ?thesis unfolding E Bool_Search_eq [of stem q] by auto
  qed
  have 2: "Bool_Search stem (q @ '' '' @ w) idx = Bool_Search stem q idx"
    if "\<forall>t \<in> set ?tw. \<not> has_key idx t"
  proof -
    from that have "filter (has_key idx) ?tw = []" by (simp add: filter_empty_conv)
    then show ?thesis unfolding E Bool_Search_eq [of stem q] by simp
  qed
  from 1 2 show ?thesis by blast
qed

theorem Bool_Search_monotonic_witness:
  "(\<exists>u \<in> set (tokenize_and_normalize (\<lambda>w. w) ''dog'').
      has_key scenario_index u) \<and>
   Bool_Search (\<lambda>w. w) (''dog'' @ '' '' @ ''cat'')
     scenario_index
   \<subseteq> Bool_Search (\<lambda>w. w) ''dog''
     scenario_index \<and>
   tokenize_and_normalize (\<lambda>w. w) ''bird'' = [''bird''] \<and>
   \<not> has_key scenario_index ''bird'' \<and>
   Bool_Search (\<lambda>w. w) (''dog'' @ '' '' @ ''bird'')
     scenario_index
   = Bool_Search (\<lambda>w. w) ''dog''
     scenario_index"
proof -
  let ?idx = scenario_index
  have t1: "tokenize_and_normalize (\<lambda>w. w) ''dog'' = [''dog'']"
    and t2: "tokenize_and_normalize (\<lambda>w. w) ''bird'' = [''bird'']"
    by (simp_all add: tokenize_and_normalize_def lower_def lower_char_def is_word_char_def)
  have h1: "\<exists>u \<in> set (tokenize_and_normalize (\<lambda>w. w) ''dog''). has_key ?idx u"
    unfolding t1 by (simp add: has_key_def keys_def scenario_index_def)
  have h2: "\<forall>t \<in> set (tokenize_and_normalize (\<lambda>w. w) ''bird''). \<not> has_key ?idx t"
    unfolding t2 by (simp add: has_key_def keys_def scenario_index_def)
  have c1: "Bool_Search (\<lambda>w. w) (''dog'' @ '' '' @ ''cat'') ?idx \<subseteq> Bool_Search (\<lambda>w. w) ''dog'' ?idx"
    using conjunct1 [OF Bool_Search_monotonic [of "\<lambda>w. w" "''dog''" ?idx "''cat''"]] h1
    by (rule mp)
  have c2: "Bool_Search (\<lambda>w. w) (''dog'' @ '' '' @ ''bird'') ?idx = Bool_Search (\<lambda>w. w) ''dog'' ?idx"
    using conjunct2 [OF Bool_Search_monotonic [of "\<lambda>w. w" "''dog''" ?idx "''bird''"]] h2
    by (rule mp)
  have n: "\<not> has_key scenario_index ''bird''"
    by (simp add: has_key_def keys_def scenario_index_def)
  show ?thesis using h1 c1 t2 n c2 by (intro conjI)
qed


section \<open>Properties of ranked retrieval\<close>



lemma mset_sorted_reverse: "mset (sorted_reverse k xs) = mset xs"
  by (simp add: sorted_reverse_def)




lemma weight_absent: "\<not> has_key idx t \<Longrightarrow> weight idx t d = 0"
  by (simp add: has_key_def keys_def weight_def dict_get_def map_of_eq_None_iff [THEN iffD2])

lemma sum_list_filter_zero:
  "(\<And>x. x \<in> set xs \<Longrightarrow> \<not> P x \<Longrightarrow> f x = (0::real)) \<Longrightarrow>
   sum_list (map f (filter P xs)) = sum_list (map f xs)"
  by (induction xs) simp_all

lemma doc_score_all: "doc_score idx toks d = (\<Sum>t\<leftarrow>toks. weight idx t d)"
  unfolding doc_score_def by (rule sum_list_filter_zero) (simp add: weight_absent)

lemma sum_list_count:
  "finite A \<Longrightarrow> set xs \<subseteq> A \<Longrightarrow>
   sum_list (map f xs) = (\<Sum>t\<in>A. real (count_list xs t) * (f t :: real))"
proof (induction xs)
  case Nil
  show ?case by simp
next
  case (Cons x xs)
  then have x: "x \<in> A" and IH: "sum_list (map f xs) = (\<Sum>t\<in>A. real (count_list xs t) * f t)"
    by simp_all
  have "(\<Sum>t\<in>A. real (count_list (x # xs) t) * f t) =
        (\<Sum>t\<in>A. real (count_list xs t) * f t + (if x = t then f t else 0))"
    by (rule sum.cong) (simp_all add: algebra_simps)
  also have "\<dots> = (\<Sum>t\<in>A. real (count_list xs t) * f t) + f x"
    using Cons.prems(1) x by (simp add: sum.distrib)
  finally show ?case using IH by simp
qed

lemma doc_score_count:
  "doc_score idx toks d = (\<Sum>t\<in>set toks. real (count_list toks t) * weight idx t d)"
  unfolding doc_score_all by (rule sum_list_count) simp_all

lemma Bool_Search_set:
  assumes "set (tokenize_and_normalize stem q') = set (tokenize_and_normalize stem q)"
  shows "Bool_Search stem q' idx = Bool_Search stem q idx"
proof -
  have "set (filter (has_key idx) (tokenize_and_normalize stem q')) =
        set (filter (has_key idx) (tokenize_and_normalize stem q))"
    using assms by simp
  moreover from this have "filter (has_key idx) (tokenize_and_normalize stem q') = [] \<longleftrightarrow>
        filter (has_key idx) (tokenize_and_normalize stem q) = []"
    by (metis set_empty)
  ultimately show ?thesis
    unfolding Bool_Search_eq [of stem q'] Bool_Search_eq [of stem q] by simp
qed

lemma tokens_cat_dog:
  "tokenize_and_normalize (\<lambda>w. w) ''cat dog'' = [''cat'', ''dog'']"
  "tokenize_and_normalize (\<lambda>w. w) ''cat dog dog'' = [''cat'', ''dog'', ''dog'']"
  "tokenize_and_normalize (\<lambda>w. w) ''dog'' = [''dog'']"
  by (simp_all add: tokenize_and_normalize_def lower_def lower_char_def is_word_char_def)

lemma two_term_ranking:
  "print_top_5_urls (\<lambda>w. w) two_urls [''D1'', ''D2''] two_term_index ''cat dog''
     = [''http://one'', ''http://two'']"
  "print_top_5_urls (\<lambda>w. w) two_urls [''D1'', ''D2''] two_term_index ''cat dog dog''
     = [''http://two'', ''http://one'']"
  by (simp_all add: print_top_5_urls_def tokens_cat_dog top_docs_def sorted_reverse_def
        doc_score_all weight_def dict_get_def two_term_index_def two_urls_def)











text \<open>
  Claim C10. The score sums over the occurrences of the query tokens: a term that
  occurs \<open>n\<close> times in the query adds its weight \<open>n\<close> times, and a query extended by
  further words adds their scores. The boolean result depends on the set of query
  terms only. On \<open>two_term_index\<close>, writing \<open>dog\<close> twice keeps the boolean result
  and reverses the ranking.
\<close>

theorem query_term_occurrences:
  "(\<forall>d. doc_score idx query_tokens d =
         (\<Sum>t \<in> set query_tokens. real (count_list query_tokens t) * weight idx t d)) \<and>
   (\<forall>d. doc_score idx (tokenize_and_normalize stem (q @ '' '' @ w)) d =
         doc_score idx (tokenize_and_normalize stem q) d +
         doc_score idx (tokenize_and_normalize stem w) d) \<and>
   (set (tokenize_and_normalize stem q') = set (tokenize_and_normalize stem q) \<longrightarrow>
      Bool_Search stem q' idx = Bool_Search stem q idx) \<and>
   Bool_Search (\<lambda>w. w) ''cat dog dog'' two_term_index =
     Bool_Search (\<lambda>w. w) ''cat dog'' two_term_index \<and>
   print_top_5_urls (\<lambda>w. w) two_urls [''D1'', ''D2''] two_term_index ''cat dog''
     = [''http://one'', ''http://two''] \<and>
   print_top_5_urls (\<lambda>w. w) two_urls [''D1'', ''D2''] two_term_index ''cat dog dog''
     = [''http://two'', ''http://one'']"
proof -
  have 1: "\<forall>d. doc_score idx query_tokens d =
         (\<Sum>t \<in> set query_tokens. real (count_list query_tokens t) * weight idx t d)"
    by (simp add: doc_score_count)
  have 2: "\<forall>d. doc_score idx (tokenize_and_normalize stem (q @ '' '' @ w)) d =
         doc_score idx (tokenize_and_normalize stem q) d +
         doc_score idx (tokenize_and_normalize stem w) d"
    unfolding tokenize_append doc_score_all by simp
  have 3: "Bool_Search (\<lambda>w. w) ''cat dog dog'' two_term_index =
     Bool_Search (\<lambda>w. w) ''cat dog'' two_term_index"
    by (rule Bool_Search_set) (simp add: tokens_cat_dog)
  have 4: "set (tokenize_and_normalize stem q') = set (tokenize_and_normalize stem q) \<longrightarrow>
      Bool_Search stem q' idx = Bool_Search stem q idx"
    using Bool_Search_set [of stem q' q idx] by (rule impI)
  show ?thesis
    by (rule conjI [OF 1 conjI [OF 2 conjI [OF 4 conjI [OF 3
          conjI [OF two_term_ranking(1) two_term_ranking(2)]]]]])
qed

theorem query_term_occurrences_witness:
  "set (tokenize_and_normalize (\<lambda>w. w) ''cat dog dog'') =
   set (tokenize_and_normalize (\<lambda>w. w) ''cat dog'') \<and>
   Bool_Search (\<lambda>w. w) ''cat dog dog'' two_term_index =
   Bool_Search (\<lambda>w. w) ''cat dog'' two_term_index \<and>
   doc_score two_term_index [''cat'', ''dog'', ''dog''] ''D2'' =
     (\<Sum>t \<in> set [''cat'', ''dog'', ''dog''].
        real (count_list [''cat'', ''dog'', ''dog''] t) * weight two_term_index t ''D2'')"
proof -
  note T = query_term_occurrences [of two_term_index "[''cat'', ''dog'', ''dog'']" "\<lambda>w. w"
          "''cat dog''" "''dog''" "''cat dog dog''"]
  have h: "set (tokenize_and_normalize (\<lambda>w. w) ''cat dog dog'') =
           set (tokenize_and_normalize (\<lambda>w. w) ''cat dog'')"
    by (simp add: tokens_cat_dog)
  have b: "Bool_Search (\<lambda>w. w) ''cat dog dog'' two_term_index =
           Bool_Search (\<lambda>w. w) ''cat dog'' two_term_index"
    using conjunct1 [OF conjunct2 [OF conjunct2 [OF T]]] h by (rule mp)
  have c: "doc_score two_term_index [''cat'', ''dog'', ''dog''] ''D2'' =
     (\<Sum>t \<in> set [''cat'', ''dog'', ''dog''].
        real (count_list [''cat'', ''dog'', ''dog''] t) * weight two_term_index t ''D2'')"
    using conjunct1 [OF T] by (rule spec)
  from h b c show ?thesis by (intro conjI)
qed


section \<open>Properties of the segment merger\<close>

lemma round_half_even_int: "round_half_even (of_int n) = n"
  by (simp add: round_half_even_def)

lemma round_double_binade:
  assumes "2 powr (of_int k) \<le> x" "x < 2 powr (of_int (k + 1))"
  shows "round_double x = of_int (round_half_even (x * 2 powr (52 - of_int k))) * 2 powr (of_int k - 52)"
proof -
  have pos: "0 < x" using assms(1) by (smt (verit) powr_gt_zero)
  then have "\<lfloor>log 2 \<bar>x\<bar>\<rfloor> = k"
    using assms by (simp add: floor_log_eq_powr_iff)
  with pos show ?thesis by (simp add: round_double_def Let_def)
qed

lemma round_double_half_to_one:
  "1 / 2 \<le> x \<Longrightarrow> x < 1 \<Longrightarrow>
   round_double x = of_int (round_half_even (x * 9007199254740992)) / 9007199254740992"
  using round_double_binade [of "-1" x] by (simp add: powr_minus divide_simps)

lemma round_double_one_to_two:
  "1 \<le> x \<Longrightarrow> x < 2 \<Longrightarrow>
   round_double x = of_int (round_half_even (x * 4503599627370496)) / 4503599627370496"
  using round_double_binade [of 0 x] by (simp add: powr_minus divide_simps)

lemma round_double_two_to_four:
  "2 \<le> x \<Longrightarrow> x < 4 \<Longrightarrow>
   round_double x = of_int (round_half_even (x * 2251799813685248)) / 2251799813685248"
  using round_double_binade [of 1 x] by (simp add: powr_minus divide_simps)

lemma sum_abc:
  "float_add (float_add (float_add 0 (6004799503160661 / 9007199254740992)) (3 / 4))
     (6004799503160661 / 4503599627370496) = 11 / 4"
  by (simp add: float_add_def round_double_half_to_one round_double_one_to_two
        round_double_two_to_four round_half_even_def)

lemma sum_cba:
  "float_add (float_add (float_add 0 (6004799503160661 / 4503599627370496)) (3 / 4))
     (6004799503160661 / 9007199254740992) = 6192449487634431 / 2251799813685248"
  by (simp add: float_add_def round_double_half_to_one round_double_one_to_two
        round_double_two_to_four round_half_even_def)

lemma doubles: "is_double 1" "is_double 2" "is_double (3 / 4)"
  by (simp_all add: is_double_def round_double_half_to_one round_double_one_to_two
        round_double_two_to_four round_half_even_def)


lemma weight_entry: "weight idx t d = (case entry idx t d of None \<Rightarrow> 0 | Some v \<Rightarrow> v)"
  by (simp add: weight_def entry_def dict_get_def split: option.split)

lemma entry_index_map:
  "entry idx t d = (case index_map idx t of None \<Rightarrow> None | Some m \<Rightarrow> m d)"
  by (simp add: entry_def index_map_def split: option.split)

lemma entry_add_posting_float:
  "entry (add_posting_float idx t d w) t' d' =
     (if t' = t \<and> d' = d then Some (float_add (weight idx t d) w) else entry idx t' d')"
  by (simp add: entry_def add_posting_float_def weight_def Let_def update_conv' dict_get_def
        split: option.split)

lemma index_map_add_posting_nonempty:
  "index_map (add_posting_float idx t d w) t' = Some m \<Longrightarrow> t' = t \<Longrightarrow> m \<noteq> Map.empty"
  by (auto simp: index_map_def add_posting_float_def Let_def update_conv')

lemma index_map_add_posting_other:
  "t' \<noteq> t \<Longrightarrow> index_map (add_posting_float idx t d w) t' = index_map idx t'"
  by (simp add: index_map_def add_posting_float_def Let_def update_conv')

lemma no_empty_add_posting: "no_empty idx \<Longrightarrow> no_empty (add_posting_float idx t d w)"
  unfolding no_empty_def
  by (metis index_map_add_posting_nonempty index_map_add_posting_other)

lemma no_empty_Nil: "no_empty []"
  by (simp add: no_empty_def index_map_def)

lemma index_map_eqI:
  assumes "no_empty a" "no_empty b" and e: "\<And>t d. entry a t d = entry b t d"
  shows "index_map a = index_map b"
proof
  fix t
  have one: "index_map y t = None" if "index_map x t = None" "no_empty y"
    "\<And>d. entry x t d = entry y t d" for x y
  proof (cases "index_map y t")
    case None then show ?thesis .
  next
    case (Some m)
    with that(2) have "m \<noteq> Map.empty" by (simp add: no_empty_def)
    then obtain d where "m d \<noteq> None" by fastforce
    with Some that(1) that(3) [of d] show ?thesis by (simp add: entry_index_map)
  qed
  show "index_map a t = index_map b t"
  proof (cases "index_map a t")
    case None
    with one [OF None assms(2) e] show ?thesis by simp
  next
    case (Some m)
    show ?thesis
    proof (cases "index_map b t")
      case None
      with one [OF None assms(1) e [symmetric]] Some show ?thesis by simp
    next
      case (Some m')
      have "m d = m' d" for d using e [of t d] \<open>index_map a t = Some m\<close> Some
        by (simp add: entry_index_map)
      then have "m = m'" by (rule ext)
      with \<open>index_map a t = Some m\<close> Some show ?thesis by simp
    qed
  qed
qed

lemma entry_merge_postings:
  "distinct (map fst ps) \<Longrightarrow>
   entry (merge_postings fi t ps) t' d' =
     (if t' = t then (case map_of ps d' of None \<Rightarrow> entry fi t d'
                      | Some w \<Rightarrow> Some (float_add (weight fi t d') w))
      else entry fi t' d')"
  unfolding merge_postings_def
proof (induction ps arbitrary: fi)
  case Nil
  show ?case by simp
next
  case (Cons p ps)
  obtain d w where p: "p = (d, w)" by (cases p)
  from Cons.prems p have n: "map_of ps d = None" and dist: "distinct (map fst ps)"
    by (auto simp: map_of_eq_None_iff)
  show ?case
    using n
    by (auto simp: p Cons.IH [OF dist] entry_add_posting_float weight_entry split: option.split)
qed

lemma no_empty_merge_postings: "no_empty fi \<Longrightarrow> no_empty (merge_postings fi t ps)"
  unfolding merge_postings_def
  by (induction ps arbitrary: fi) (auto simp: no_empty_add_posting)

lemma entry_Cons:
  "entry ((t, ps) # rest) t' d = (if t' = t then map_of ps d else entry rest t' d)"
  by (simp add: entry_def)

lemma entry_absent: "t \<notin> fst ` set idx \<Longrightarrow> entry idx t d = None"
  by (simp add: entry_def map_of_eq_None_iff [THEN iffD2])

lemma entry_merge_segment:
  "wf_index seg \<Longrightarrow>
   entry (merge_segment fi seg) t d =
     (case entry seg t d of None \<Rightarrow> entry fi t d
      | Some w \<Rightarrow> Some (float_add (weight fi t d) w))"
  unfolding merge_segment_def
proof (induction seg arbitrary: fi)
  case Nil
  show ?case by (simp add: entry_def)
next
  case (Cons p seg)
  obtain t' ps where p: "p = (t', ps)" by (cases p)
  from Cons.prems p have wf: "wf_index seg" and dps: "distinct (map fst ps)"
    and nt: "t' \<notin> fst ` set seg"
    by (auto simp: wf_index_def keys_def)
  show ?case
  proof (cases "t' = t")
    case True
    with nt have "entry seg t d = None" by (simp add: entry_absent)
    then show ?thesis
      using True by (simp add: p Cons.IH [OF wf] entry_Cons entry_merge_postings [OF dps])
  next
    case False
    then have "t \<noteq> t'" by simp
    then show ?thesis
      by (simp add: p Cons.IH [OF wf] entry_Cons entry_merge_postings [OF dps] weight_entry
            split: option.split)
  qed
qed

lemma no_empty_merge_segment: "no_empty fi \<Longrightarrow> no_empty (merge_segment fi seg)"
  unfolding merge_segment_def
  by (induction seg arbitrary: fi) (auto simp: no_empty_merge_postings)

lemma merge_files_fold:
  "map files names = map Some segs \<Longrightarrow>
   merge_files files names fi = Inr (fold (\<lambda>seg final. merge_segment final seg) segs fi)"
proof (induction names arbitrary: segs fi)
  case Nil
  then show ?case by simp
next
  case (Cons n names)
  then obtain s rest where "segs = s # rest" "files n = Some s" "map files names = map Some rest"
    by (cases segs) auto
  with Cons.IH [of rest] show ?case by simp
qed

lemma pair_weights_Cons:
  "pair_weights (s # segs) t d =
     (case entry s t d of None \<Rightarrow> [] | Some w \<Rightarrow> [w]) @ pair_weights segs t d"
  by (simp add: pair_weights_def)

lemma entry_merge_fold:
  "list_all wf_index segs \<Longrightarrow>
   entry (fold (\<lambda>seg final. merge_segment final seg) segs fi) t d =
     (if entry fi t d = None \<and> pair_weights segs t d = [] then None
      else Some (foldl float_add (weight fi t d) (pair_weights segs t d)))"
proof (induction segs arbitrary: fi)
  case Nil
  show ?case by (simp add: pair_weights_def weight_entry split: option.split)
next
  case (Cons s segs)
  then have wf: "wf_index s" and rest: "list_all wf_index segs" by simp_all
  show ?case
    by (cases "entry s t d")
       (simp_all add: Cons.IH [OF rest] entry_merge_segment [OF wf] pair_weights_Cons
          weight_entry split: option.split)
qed

lemma no_empty_merge_fold:
  "no_empty fi \<Longrightarrow> no_empty (fold (\<lambda>seg final. merge_segment final seg) segs fi)"
  by (induction segs arbitrary: fi) (auto simp: no_empty_merge_segment)

lemma merge_files_permuted:
  assumes "map files names = map Some segs" and "mset names' = mset names"
  shows "\<exists>segs'. map files names' = map Some segs' \<and> mset segs' = mset segs"
proof -
  have "\<forall>n \<in> set names. files n \<noteq> None"
  proof
    fix n assume "n \<in> set names"
    then have "files n \<in> set (map Some segs)" using assms(1) [symmetric] by auto
    then show "files n \<noteq> None" by auto
  qed
  moreover have "set names' = set names" using assms(2) by (rule mset_eq_setD)
  ultimately have s: "map files names' = map Some (map (the \<circ> files) names')"
    by auto
  from assms(1) have "map the (map files names) = map the (map Some segs)" by simp
  then have "map (the \<circ> files) names = segs" by (simp add: comp_def)
  moreover have "mset (map (the \<circ> files) names') = mset (map (the \<circ> files) names)"
    using assms(2) by simp
  ultimately have "mset (map (the \<circ> files) names') = mset segs" by simp
  with s show ?thesis by (intro exI conjI)
qed

lemma entry_is_double: "double_weights seg \<Longrightarrow> entry seg t d = Some w \<Longrightarrow> is_double w"
proof -
  assume dw: "double_weights seg" and e: "entry seg t d = Some w"
  from e obtain ps where "map_of seg t = Some ps" "map_of ps d = Some w"
    by (auto simp: entry_def split: option.splits)
  then have "(t, ps) \<in> set seg" "(d, w) \<in> set ps" by (auto dest: map_of_SomeD)
  with dw show ?thesis by (auto simp: double_weights_def list_all_iff)
qed

lemma float_add_zero: "is_double w \<Longrightarrow> float_add 0 w = w"
  by (simp add: float_add_def is_double_def)

lemma float_add_commute: "float_add x y = float_add y x"
  by (simp add: float_add_def add.commute)

lemma mset_pair_weights:
  assumes "mset segs' = mset segs"
  shows "mset (pair_weights segs' t d) = mset (pair_weights segs t d)"
proof -
  let ?f = "\<lambda>seg. mset (case entry seg t d of None \<Rightarrow> [] | Some w \<Rightarrow> [w])"
  have "mset (pair_weights ss t d) = sum_mset (image_mset ?f (mset ss))" for ss
    by (induction ss) (simp_all add: pair_weights_Cons pair_weights_def)
  with assms show ?thesis by simp
qed

lemma short_list_eq:
  "mset xs = mset ys \<Longrightarrow> length ys \<le> 1 \<Longrightarrow> xs = ys"
proof -
  assume m: "mset xs = mset ys" and l: "length ys \<le> 1"
  from m have "length xs = length ys" by (rule mset_eq_length)
  with l m show ?thesis
    by (cases xs; cases ys) (auto simp: length_Suc_conv)
qed


text \<open>
  Claim C3, as stated, fails: the result depends on the order of the segments. Three
  segments hold \<open>(cat, D1)\<close> with the weights 0.6666666666666666, 0.75 and
  1.3333333333333333. Merged in this order the weight is 2.75; merged in the reverse
  order it is 2.7499999999999996.
\<close>

theorem merge_order_matters:
  "mset [''partial_index_3.json'', ''partial_index_2.json'', ''partial_index_1.json''] =
   mset [''partial_index_1.json'', ''partial_index_2.json'', ''partial_index_3.json''] \<and>
   merge_partial_indexes three_segments
      [''partial_index_1.json'', ''partial_index_2.json'', ''partial_index_3.json'']
      ''final_inverted_index.json''
     = Inr ([(''cat'', [(''D1'', 11 / 4)])],
            three_segments(''final_inverted_index.json'' \<mapsto> [(''cat'', [(''D1'', 11 / 4)])])) \<and>
   merge_partial_indexes three_segments
      [''partial_index_3.json'', ''partial_index_2.json'', ''partial_index_1.json'']
      ''final_inverted_index.json''
     = Inr ([(''cat'', [(''D1'', 6192449487634431 / 2251799813685248)])],
            three_segments(''final_inverted_index.json'' \<mapsto>
              [(''cat'', [(''D1'', 6192449487634431 / 2251799813685248)])])) \<and>
   weight [(''cat'', [(''D1'', 11 / 4)])] ''cat'' ''D1'' \<noteq>
   weight [(''cat'', [(''D1'', 6192449487634431 / 2251799813685248)])] ''cat'' ''D1''"
proof -
  have m: "mset [''partial_index_3.json'', ''partial_index_2.json'', ''partial_index_1.json''] =
     mset [''partial_index_1.json'', ''partial_index_2.json'', ''partial_index_3.json'']"
    by (simp add: add.commute add.left_commute)
  have a: "merge_partial_indexes three_segments
      [''partial_index_1.json'', ''partial_index_2.json'', ''partial_index_3.json'']
      ''final_inverted_index.json''
     = Inr ([(''cat'', [(''D1'', 11 / 4)])],
            three_segments(''final_inverted_index.json'' \<mapsto> [(''cat'', [(''D1'', 11 / 4)])]))"
    by (simp add: merge_partial_indexes_def three_segments_def merge_segment_def
          merge_postings_def add_posting_float_def dict_get_def float_add_def
          round_double_half_to_one round_double_one_to_two round_double_two_to_four
          round_half_even_def)
  have b: "merge_partial_indexes three_segments
      [''partial_index_3.json'', ''partial_index_2.json'', ''partial_index_1.json'']
      ''final_inverted_index.json''
     = Inr ([(''cat'', [(''D1'', 6192449487634431 / 2251799813685248)])],
            three_segments(''final_inverted_index.json'' \<mapsto>
              [(''cat'', [(''D1'', 6192449487634431 / 2251799813685248)])]))"
    by (simp add: merge_partial_indexes_def three_segments_def merge_segment_def
          merge_postings_def add_posting_float_def dict_get_def float_add_def
          round_double_half_to_one round_double_one_to_two round_double_two_to_four
          round_half_even_def)
  have c: "weight [(''cat'', [(''D1'', 11 / 4)])] ''cat'' ''D1'' \<noteq>
     weight [(''cat'', [(''D1'', 6192449487634431 / 2251799813685248)])] ''cat'' ''D1''"
    by (simp add: weight_def dict_get_def)
  from m a b c show ?thesis by (intro conjI)
qed

lemma cat_twice:
  "weight (merge_segment (merge_segment [] cat_segment) cat_segment) ''cat'' ''D1'' = 2"
  by (simp add: merge_segment_def merge_postings_def add_posting_float_def weight_def
        dict_get_def cat_segment_def float_add_def round_double_one_to_two
        round_double_two_to_four round_half_even_def)

text \<open>
  Claim C3, amended. When every segment file holds a well-formed index, the merge
  returns a final index that holds a pair exactly when a segment does, with the weight
  that results from adding the pair's weights to 0.0 in the order of the segment list,
  each sum rounded as the machine does. A pair that one segment only holds keeps its
  weight. Merging two segments in the other order returns an index equal to it as a
  dictionary, and so does merging any number of segments in any order when no pair is
  held by more than one of them. Two segments that each hold \<open>(cat, D1, 1.0)\<close> merge
  to the weight 2.
\<close>

theorem merge_accumulates_in_order:
  "map files names = map Some segs \<Longrightarrow> list_all wf_index segs \<Longrightarrow>
     (\<exists>final. merge_partial_indexes files names out = Inr (final, files(out \<mapsto> final)) \<and>
        (\<forall>t d. weight final t d = rounded_sum (pair_weights segs t d)) \<and>
        (\<forall>t d. (entry final t d = None) = (pair_weights segs t d = [])) \<and>
        (list_all double_weights segs \<longrightarrow>
           (\<forall>t d w. pair_weights segs t d = [w] \<longrightarrow> weight final t d = w) \<and>
           (\<forall>a b. names = [a, b] \<longrightarrow>
              (\<exists>final'. merge_partial_indexes files [b, a] out =
                           Inr (final', files(out \<mapsto> final')) \<and>
                         index_map final' = index_map final))) \<and>
        ((\<forall>t d. length (pair_weights segs t d) \<le> 1) \<longrightarrow>
           (\<forall>names'. mset names' = mset names \<longrightarrow>
              (\<exists>final'. merge_partial_indexes files names' out =
                           Inr (final', files(out \<mapsto> final')) \<and>
                         index_map final' = index_map final)))) \<and>
     weight (merge_segment (merge_segment [] cat_segment) cat_segment) ''cat'' ''D1'' = 2"
proof -
  assume f: "map files names = map Some segs" and wf: "list_all wf_index segs"
  let ?m = "\<lambda>ss. fold (\<lambda>seg final. merge_segment final seg) ss []"
  have e0: "entry [] t d = None" "weight [] t d = 0" for t d
    by (simp_all add: entry_def weight_def dict_get_def)
  have ent: "entry (?m ss) t d =
        (if pair_weights ss t d = [] then None else Some (rounded_sum (pair_weights ss t d)))"
    if "list_all wf_index ss" for ss t d
    using entry_merge_fold [OF that, of "[]" t d] by (simp add: e0 rounded_sum_def)
  have run: "merge_partial_indexes files ns out = Inr (?m ss, files(out \<mapsto> ?m ss))"
    if "map files ns = map Some ss" for ns ss
    by (simp add: merge_partial_indexes_def merge_files_fold [OF that])
  have same: "index_map (?m ss) = index_map (?m segs)"
    if "list_all wf_index ss" "\<And>t d. entry (?m ss) t d = entry (?m segs) t d" for ss
    by (rule index_map_eqI) (simp_all add: no_empty_merge_fold no_empty_Nil that(2))
  have 1: "weight (?m segs) t d = rounded_sum (pair_weights segs t d)" for t d
    by (simp add: weight_entry [of "?m segs"] ent [OF wf] rounded_sum_def)
  have 2: "(entry (?m segs) t d = None) = (pair_weights segs t d = [])" for t d
    by (simp add: ent [OF wf])
  have 3: "weight (?m segs) t d = w"
    if dw: "list_all double_weights segs" and p: "pair_weights segs t d = [w]" for t d w
  proof -
    have "w \<in> set (pair_weights segs t d)" using p by simp
    then obtain seg where "seg \<in> set segs" "entry seg t d = Some w"
      by (auto simp: pair_weights_def split: option.splits)
    with dw have "is_double w" by (auto simp: list_all_iff intro: entry_is_double)
    then show ?thesis by (simp add: 1 p rounded_sum_def float_add_zero)
  qed
  have 4: "\<exists>final'. merge_partial_indexes files [b, a] out = Inr (final', files(out \<mapsto> final')) \<and>
             index_map final' = index_map (?m segs)"
    if dw: "list_all double_weights segs" and n: "names = [a, b]" for a b
  proof -
    from f n obtain A B where s: "segs = [A, B]" and fa: "files a = Some A" and fb: "files b = Some B"
      by (cases segs; cases "tl segs") auto
    have f': "map files [b, a] = map Some [B, A]" using fa fb by simp
    have wf': "list_all wf_index [B, A]" using wf s by simp
    have eq: "entry (?m [B, A]) t d = entry (?m segs) t d" for t d
    proof (cases "entry A t d")
      case None
      then show ?thesis unfolding ent [OF wf'] ent [OF wf] by (simp add: s pair_weights_def)
    next
      case a: (Some wa)
      show ?thesis
      proof (cases "entry B t d")
        case None
        with a show ?thesis unfolding ent [OF wf'] ent [OF wf] by (simp add: s pair_weights_def)
      next
        case b: (Some wb)
        from dw s a b have "is_double wa" "is_double wb"
          by (auto intro: entry_is_double)
        then have "float_add (float_add 0 wb) wa = float_add (float_add 0 wa) wb"
          by (simp add: float_add_zero float_add_commute)
        with a b show ?thesis
          unfolding ent [OF wf'] ent [OF wf] by (simp add: s pair_weights_def rounded_sum_def)
      qed
    qed
    from run [OF f'] same [OF wf' eq] show ?thesis by blast
  qed
  have 5: "\<exists>final'. merge_partial_indexes files names' out = Inr (final', files(out \<mapsto> final')) \<and>
              index_map final' = index_map (?m segs)"
    if short: "\<forall>t d. length (pair_weights segs t d) \<le> 1" and "mset names' = mset names"
    for names'
  proof -
    from merge_files_permuted [OF f that(2)] obtain segs'
      where f': "map files names' = map Some segs'" and m: "mset segs' = mset segs" by blast
    have "set segs' = set segs" using m by (rule mset_eq_setD)
    with wf have wf': "list_all wf_index segs'" by (simp add: list_all_iff)
    have "pair_weights segs' t d = pair_weights segs t d" for t d
      using mset_pair_weights [OF m, of t d] short by (simp add: short_list_eq)
    then have "entry (?m segs') t d = entry (?m segs) t d" for t d
      by (simp add: ent [OF wf'] ent [OF wf])
    from run [OF f'] same [OF wf' this] show ?thesis by blast
  qed
  have main:
    "\<exists>final. merge_partial_indexes files names out = Inr (final, files(out \<mapsto> final)) \<and>
        (\<forall>t d. weight final t d = rounded_sum (pair_weights segs t d)) \<and>
        (\<forall>t d. (entry final t d = None) = (pair_weights segs t d = [])) \<and>
        (list_all double_weights segs \<longrightarrow>
           (\<forall>t d w. pair_weights segs t d = [w] \<longrightarrow> weight final t d = w) \<and>
           (\<forall>a b. names = [a, b] \<longrightarrow>
              (\<exists>final'. merge_partial_indexes files [b, a] out =
                           Inr (final', files(out \<mapsto> final')) \<and>
                         index_map final' = index_map final))) \<and>
        ((\<forall>t d. length (pair_weights segs t d) \<le> 1) \<longrightarrow>
           (\<forall>names'. mset names' = mset names \<longrightarrow>
              (\<exists>final'. merge_partial_indexes files names' out =
                           Inr (final', files(out \<mapsto> final')) \<and>
                         index_map final' = index_map final)))"
  proof -
    have A: "list_all double_weights segs \<longrightarrow>
           (\<forall>t d w. pair_weights segs t d = [w] \<longrightarrow> weight (?m segs) t d = w) \<and>
           (\<forall>a b. names = [a, b] \<longrightarrow>
              (\<exists>final'. merge_partial_indexes files [b, a] out =
                           Inr (final', files(out \<mapsto> final')) \<and>
                         index_map final' = index_map (?m segs)))"
    proof (intro impI conjI allI)
      fix t d w
      assume "list_all double_weights segs" "pair_weights segs t d = [w]"
      then show "weight (?m segs) t d = w" by (rule 3)
    next
      fix a b
      assume "list_all double_weights segs" "names = [a, b]"
      then show "\<exists>final'. merge_partial_indexes files [b, a] out =
                           Inr (final', files(out \<mapsto> final')) \<and>
                         index_map final' = index_map (?m segs)" by (rule 4)
    qed
    have B: "(\<forall>t d. length (pair_weights segs t d) \<le> 1) \<longrightarrow>
           (\<forall>names'. mset names' = mset names \<longrightarrow>
              (\<exists>final'. merge_partial_indexes files names' out =
                           Inr (final', files(out \<mapsto> final')) \<and>
                         index_map final' = index_map (?m segs)))"
    proof (intro impI allI)
      fix names'
      assume "\<forall>t d. length (pair_weights segs t d) \<le> 1" "mset names' = mset names"
      then show "\<exists>final'. merge_partial_indexes files names' out =
                           Inr (final', files(out \<mapsto> final')) \<and>
                         index_map final' = index_map (?m segs)" by (rule 5)
    qed
    have W: "\<forall>t d. weight (?m segs) t d = rounded_sum (pair_weights segs t d)"
      using 1 by (intro allI)
    have E: "\<forall>t d. (entry (?m segs) t d = None) = (pair_weights segs t d = [])"
      using 2 by (intro allI)
    show ?thesis
      by (rule exI [of _ "?m segs"]) (rule conjI [OF run [OF f] conjI [OF W conjI [OF E conjI [OF A B]]]])
  qed
  from main cat_twice show ?thesis by (rule conjI)
qed


theorem merge_accumulates_in_order_witness:
  "map two_segments [''partial_index_1.json'', ''partial_index_2.json'']
     = map Some [cat_segment, cat_segment] \<and>
   list_all wf_index [cat_segment, cat_segment] \<and>
   list_all double_weights [cat_segment, cat_segment] \<and>
   (\<exists>final final'.
      merge_partial_indexes two_segments [''partial_index_1.json'', ''partial_index_2.json'']
          ''final_inverted_index.json''
        = Inr (final, two_segments(''final_inverted_index.json'' \<mapsto> final)) \<and>
      weight final ''cat'' ''D1'' = 2 \<and>
      merge_partial_indexes two_segments [''partial_index_2.json'', ''partial_index_1.json'']
          ''final_inverted_index.json''
        = Inr (final', two_segments(''final_inverted_index.json'' \<mapsto> final')) \<and>
      index_map final' = index_map final) \<and>
   map disjoint_segments [''partial_index_1.json'', ''partial_index_2.json'']
     = map Some [cat_segment, dog_segment] \<and>
   list_all wf_index [cat_segment, dog_segment] \<and>
   (\<forall>t d. length (pair_weights [cat_segment, dog_segment] t d) \<le> 1) \<and>
   mset [''partial_index_2.json'', ''partial_index_1.json''] =
   mset [''partial_index_1.json'', ''partial_index_2.json''] \<and>
   (\<exists>final final'.
      merge_partial_indexes disjoint_segments [''partial_index_1.json'', ''partial_index_2.json'']
          ''final_inverted_index.json''
        = Inr (final, disjoint_segments(''final_inverted_index.json'' \<mapsto> final)) \<and>
      merge_partial_indexes disjoint_segments [''partial_index_2.json'', ''partial_index_1.json'']
          ''final_inverted_index.json''
        = Inr (final', disjoint_segments(''final_inverted_index.json'' \<mapsto> final')) \<and>
      index_map final' = index_map final)"
proof -
  let ?p1 = "''partial_index_1.json''" and ?p2 = "''partial_index_2.json''"
  let ?out = "''final_inverted_index.json''"
  have a: "map two_segments [?p1, ?p2] = map Some [cat_segment, cat_segment]"
    by (simp add: two_segments_def)
  have b: "list_all wf_index [cat_segment, cat_segment]"
    by (simp add: wf_index_def keys_def cat_segment_def)
  have c: "list_all double_weights [cat_segment, cat_segment]"
    by (simp add: double_weights_def cat_segment_def doubles)
  have s: "rounded_sum (pair_weights [cat_segment, cat_segment] ''cat'' ''D1'') = 2"
    by (simp add: pair_weights_def entry_def cat_segment_def rounded_sum_def float_add_def
          round_double_one_to_two round_double_two_to_four round_half_even_def)
  from conjunct1 [OF merge_accumulates_in_order [OF a b, of ?out]]
  obtain final where
    m: "merge_partial_indexes two_segments [?p1, ?p2] ?out
          = Inr (final, two_segments(?out \<mapsto> final))"
    and w: "\<forall>t d. weight final t d = rounded_sum (pair_weights [cat_segment, cat_segment] t d)"
    and two: "list_all double_weights [cat_segment, cat_segment] \<longrightarrow>
           (\<forall>t d w. pair_weights [cat_segment, cat_segment] t d = [w] \<longrightarrow> weight final t d = w) \<and>
           (\<forall>a b. [?p1, ?p2] = [a, b] \<longrightarrow>
              (\<exists>final'. merge_partial_indexes two_segments [b, a] ?out =
                           Inr (final', two_segments(?out \<mapsto> final')) \<and>
                         index_map final' = index_map final))"
    by (elim exE conjE) (rule that, assumption+)
  from w s have w2: "weight final ''cat'' ''D1'' = 2" by simp
  from conjunct2 [OF mp [OF two c]]
  have "[?p1, ?p2] = [?p1, ?p2] \<longrightarrow>
          (\<exists>final'. merge_partial_indexes two_segments [?p2, ?p1] ?out =
                           Inr (final', two_segments(?out \<mapsto> final')) \<and>
                         index_map final' = index_map final)"
    by (elim allE)
  then obtain final' where
    m': "merge_partial_indexes two_segments [?p2, ?p1] ?out
           = Inr (final', two_segments(?out \<mapsto> final'))"
    and i: "index_map final' = index_map final"
    by (elim impE exE conjE) (rule refl, rule that, assumption+)
  from m w2 m' i have first: "\<exists>final final'.
      merge_partial_indexes two_segments [?p1, ?p2] ?out
        = Inr (final, two_segments(?out \<mapsto> final)) \<and>
      weight final ''cat'' ''D1'' = 2 \<and>
      merge_partial_indexes two_segments [?p2, ?p1] ?out
        = Inr (final', two_segments(?out \<mapsto> final')) \<and>
      index_map final' = index_map final"
    by (intro exI [of _ final] exI [of _ final'] conjI)
  have a2: "map disjoint_segments [?p1, ?p2] = map Some [cat_segment, dog_segment]"
    by (simp add: disjoint_segments_def)
  have b2: "list_all wf_index [cat_segment, dog_segment]"
    by (simp add: wf_index_def keys_def cat_segment_def dog_segment_def)
  have l: "\<forall>t d. length (pair_weights [cat_segment, dog_segment] t d) \<le> 1"
    by (simp add: pair_weights_def entry_def cat_segment_def dog_segment_def
          split: option.split)
  have p: "mset [?p2, ?p1] = mset [?p1, ?p2]" by (simp add: add.commute)
  from conjunct1 [OF merge_accumulates_in_order [OF a2 b2, of ?out]]
  obtain g where
    n: "merge_partial_indexes disjoint_segments [?p1, ?p2] ?out
          = Inr (g, disjoint_segments(?out \<mapsto> g))"
    and any: "(\<forall>t d. length (pair_weights [cat_segment, dog_segment] t d) \<le> 1) \<longrightarrow>
           (\<forall>names'. mset names' = mset [?p1, ?p2] \<longrightarrow>
              (\<exists>final'. merge_partial_indexes disjoint_segments names' ?out =
                           Inr (final', disjoint_segments(?out \<mapsto> final')) \<and>
                         index_map final' = index_map g))"
    by (elim exE conjE) (rule that, assumption+)
  from mp [OF any l]
  have "mset [?p2, ?p1] = mset [?p1, ?p2] \<longrightarrow>
              (\<exists>final'. merge_partial_indexes disjoint_segments [?p2, ?p1] ?out =
                           Inr (final', disjoint_segments(?out \<mapsto> final')) \<and>
                         index_map final' = index_map g)"
    by (rule spec)
  from mp [OF this p] obtain g' where
    n': "merge_partial_indexes disjoint_segments [?p2, ?p1] ?out
           = Inr (g', disjoint_segments(?out \<mapsto> g'))"
    and j: "index_map g' = index_map g"
    by (elim exE conjE) (rule that, assumption+)
  from n n' j have second: "\<exists>final final'.
      merge_partial_indexes disjoint_segments [?p1, ?p2] ?out
        = Inr (final, disjoint_segments(?out \<mapsto> final)) \<and>
      merge_partial_indexes disjoint_segments [?p2, ?p1] ?out
        = Inr (final', disjoint_segments(?out \<mapsto> final')) \<and>
      index_map final' = index_map final"
    by (intro exI [of _ g] exI [of _ g'] conjI)
  from a b c first a2 b2 l p second show ?thesis by (intro conjI)
qed


section \<open>Properties of ingestion\<close>

lemma process_file_skip:
  "\<not> (endswith file ''.json'' \<and> fst (read_json_file fs (path_join root_dir file)) \<noteq> []) \<Longrightarrow>
   process_file stem parse fs root_dir file st = st"
  by (auto simp: process_file_def Let_def split_def)

lemma process_file_counted:
  assumes "endswith file ''.json''" "fst (read_json_file fs (path_join root_dir file)) \<noteq> []"
  shows "process_file stem parse fs root_dir file st =
     (let file_path = path_join root_dir file;
          content = fst (read_json_file fs file_path);
          url = snd (read_json_file fs file_path);
          txt = extract_text_from_html parse content;
          built = build_inverted_index file_path (tokenize_and_normalize stem (fst txt))
                    (tokenize_and_normalize stem (snd txt)) (inverted_index st) (doc_lengths st);
          st1 = st\<lparr>inverted_index := fst built, doc_lengths := snd built,
                   doc_id_to_url := AList.update file_path url (doc_id_to_url st),
                   doc_count := doc_count st + 1\<rparr>
      in if (doc_count st + 1) mod 10000 = 0
         then st1\<lparr>segments := (segments st)(partial_index_name (part_num st) \<mapsto> fst built),
                  partial_files := partial_files st @ [partial_index_name (part_num st)],
                  part_num := part_num st + 1, inverted_index := []\<rparr>
         else st1)"
  using assms
  by (simp add: process_file_def Let_def split_def flush_def save_partial_index_def)

lemma div_step:
  "(Suc c) mod 10000 = 0 \<Longrightarrow> Suc c div 10000 = Suc (c div 10000)"
  "(Suc c) mod 10000 \<noteq> 0 \<Longrightarrow> Suc c div 10000 = c div 10000"
  by (simp_all add: div_Suc)

lemma inv_process_file: "flush_invariant st \<Longrightarrow> flush_invariant (process_file stem parse fs root_dir file st)"
proof (cases "endswith file ''.json'' \<and> fst (read_json_file fs (path_join root_dir file)) \<noteq> []")
  case False
  assume "flush_invariant st"
  with process_file_skip [OF False] show ?thesis by simp
next
  case True
  assume "flush_invariant st"
  then show ?thesis
    using True by (simp add: process_file_counted Let_def flush_invariant_def div_step)
qed

lemma inv_ingest_loop: "flush_invariant st \<Longrightarrow> flush_invariant (ingest_loop stem parse fs walk st)"
proof -
  have inner: "flush_invariant s \<Longrightarrow> flush_invariant (fold (process_file stem parse fs r) files s)" for r files s
    by (induction files arbitrary: s) (simp_all add: inv_process_file)
  show "flush_invariant st \<Longrightarrow> flush_invariant (ingest_loop stem parse fs walk st)"
    unfolding ingest_loop_def
    by (induction walk arbitrary: st) (auto simp: inner)
qed

lemma inv_start: "flush_invariant (start urls lens files)"
  by (simp add: flush_invariant_def start_def)


lemma extract_total:
  "extract_text_from_html (\<lambda>html. case parse html of None \<Rightarrow> Some ([], []) | Some r \<Rightarrow> Some r) =
   extract_text_from_html parse"
  by (rule ext) (simp add: extract_text_from_html_def split: option.split)

lemma process_file_total:
  "process_file stem (\<lambda>html. case parse html of None \<Rightarrow> Some ([], []) | Some r \<Rightarrow> Some r) =
   process_file stem parse"
  by (intro ext) (simp add: process_file_def Let_def split_def extract_total)

lemma build_no_tokens: "build_inverted_index doc_id [] key_tokens idx lens = (idx, lens)"
  by (simp add: build_inverted_index_def count_terms_def)

lemma tokenize_empty: "tokenize_and_normalize stem [] = []"
  by (simp add: tokenize_and_normalize_def lower_def)

lemma name_1: "partial_index_name (Suc 0) = ''partial_index_1.json''"
  by (simp add: partial_index_name_def str_nat.simps digit_def)

lemma digit_value: "of_char (digit n) - 48 = n mod 10"
proof -
  have "\<forall>m \<in> set [0, 1, 2, 3, 4, 5, 6, 7, 8, 9]. of_char (''0123456789'' ! m) - 48 = (m::nat)"
    by simp
  moreover have "m < 10 \<Longrightarrow> m \<in> set [0, 1, 2, 3, 4, 5, 6, 7, 8, 9]" for m :: nat
    by (simp add: less_Suc_eq numeral_eq_Suc)
  then have "n mod 10 \<in> set [0, 1, 2, 3, 4, 5, 6, 7, 8, 9]" by simp
  ultimately show ?thesis unfolding digit_def by (rule bspec)
qed

lemma decimal_snoc: "decimal (s @ [c]) = 10 * decimal s + (of_char c - 48)"
  by (simp add: decimal_def)

lemma decimal_str_nat: "decimal (str_nat n) = n"
proof (induction n rule: str_nat.induct)
  case (1 n)
  show ?case
  proof (cases "n < 10")
    case True
    then show ?thesis
      by (subst str_nat.simps) (simp add: decimal_def digit_value)
  next
    case False
    with "1.IH" have "decimal (str_nat (n div 10)) = n div 10" by simp
    with False show ?thesis
      by (subst str_nat.simps) (simp add: decimal_snoc digit_value)
  qed
qed

lemma part_number_of_name: "part_number_of (partial_index_name n) = n"
proof -
  have "drop 14 (partial_index_name n) = str_nat n @ ''.json''"
    by (simp add: partial_index_name_def)
  then have "rev (drop 5 (rev (drop 14 (partial_index_name n)))) = str_nat n"
    by simp
  then show ?thesis by (simp add: part_number_of_def decimal_str_nat)
qed

lemma partial_index_name_inj: "partial_index_name m = partial_index_name n \<Longrightarrow> m = n"
proof -
  assume "partial_index_name m = partial_index_name n"
  then have "part_number_of (partial_index_name m) = part_number_of (partial_index_name n)"
    by (rule arg_cong)
  then show "m = n" by (simp only: part_number_of_name)
qed

lemma distinct_names: "distinct (map partial_index_name [i ..< j])"
  by (simp add: distinct_map inj_on_def) (blast dest: partial_index_name_inj)

lemma numbers_of_names: "map part_number_of (map partial_index_name ns) = ns"
  by (induction ns) (simp_all add: part_number_of_name)

text \<open>
  Claim C5. One step of ingestion writes a segment exactly when the file is counted as
  processed and the count reaches a multiple of 10000; the segment holds the index in
  memory, this document included, under the name of the current part number; the part
  number goes up by one and the index in memory is cleared. At the end of the run, a
  non-empty index in memory is written as one more segment. The list returned is the
  names of the parts \<open>1, 2, ..., k\<close> in this order. The name of a part holds its
  number in decimal, so the names of different parts differ: a flush writes a file that
  no earlier flush of the run has written, and the numbers read back from the list
  returned are \<open>1, 2, ..., k\<close>.
\<close>

theorem segment_flush:
  "(let counted = (endswith file ''.json'' \<and>
                   fst (read_json_file fs (path_join root_dir file)) \<noteq> []);
        flushes = (counted \<and> (doc_count st + 1) mod 10000 = 0);
        txt = extract_text_from_html parse (fst (read_json_file fs (path_join root_dir file)));
        memory = fst (build_inverted_index (path_join root_dir file)
                        (tokenize_and_normalize stem (fst txt))
                        (tokenize_and_normalize stem (snd txt))
                        (inverted_index st) (doc_lengths st));
        st' = process_file stem parse fs root_dir file st
    in doc_count st' = (if counted then doc_count st + 1 else doc_count st) \<and>
       (flushes \<longleftrightarrow> doc_count st' \<noteq> doc_count st \<and> doc_count st' mod 10000 = 0) \<and>
       partial_files st' =
         (if flushes then partial_files st @ [partial_index_name (part_num st)]
          else partial_files st) \<and>
       part_num st' = (if flushes then part_num st + 1 else part_num st) \<and>
       (flushes \<longrightarrow> inverted_index st' = [] \<and>
          segments st' = (segments st)(partial_index_name (part_num st) \<mapsto> memory)) \<and>
       (\<not> flushes \<longrightarrow> segments st' = segments st) \<and>
       (counted \<and> \<not> flushes \<longrightarrow> inverted_index st' = memory)) \<and>
   (let last_st = ingest_loop stem parse fs walk (start urls lens files);
        result = process_all_documents stem parse fs walk urls lens files
    in part_num last_st = doc_count last_st div 10000 + 1 \<and>
       partial_files last_st = map partial_index_name [1 ..< part_num last_st] \<and>
       partial_files result =
         (if inverted_index last_st \<noteq> []
          then partial_files last_st @ [partial_index_name (part_num last_st)]
          else partial_files last_st) \<and>
       (inverted_index last_st \<noteq> [] \<longrightarrow>
          segments result =
            (segments last_st)(partial_index_name (part_num last_st) \<mapsto> inverted_index last_st)) \<and>
       (\<exists>k. partial_files result = map partial_index_name [1 ..< Suc k])) \<and>
   ((\<forall>n. part_number_of (partial_index_name n) = n) \<and>
    (\<forall>m n. partial_index_name m = partial_index_name n \<longrightarrow> m = n) \<and>
    (flush_invariant st \<longrightarrow> partial_index_name (part_num st) \<notin> set (partial_files st)) \<and>
    (let result = process_all_documents stem parse fs walk urls lens files
     in distinct (partial_files result) \<and>
        (\<exists>k. map part_number_of (partial_files result) = [1 ..< Suc k])))"
proof -
  let ?c = "endswith file ''.json'' \<and> fst (read_json_file fs (path_join root_dir file)) \<noteq> []"
  have step: "let counted = ?c;
        flushes = (counted \<and> (doc_count st + 1) mod 10000 = 0);
        txt = extract_text_from_html parse (fst (read_json_file fs (path_join root_dir file)));
        memory = fst (build_inverted_index (path_join root_dir file)
                        (tokenize_and_normalize stem (fst txt))
                        (tokenize_and_normalize stem (snd txt))
                        (inverted_index st) (doc_lengths st));
        st' = process_file stem parse fs root_dir file st
    in doc_count st' = (if counted then doc_count st + 1 else doc_count st) \<and>
       (flushes \<longleftrightarrow> doc_count st' \<noteq> doc_count st \<and> doc_count st' mod 10000 = 0) \<and>
       partial_files st' =
         (if flushes then partial_files st @ [partial_index_name (part_num st)]
          else partial_files st) \<and>
       part_num st' = (if flushes then part_num st + 1 else part_num st) \<and>
       (flushes \<longrightarrow> inverted_index st' = [] \<and>
          segments st' = (segments st)(partial_index_name (part_num st) \<mapsto> memory)) \<and>
       (\<not> flushes \<longrightarrow> segments st' = segments st) \<and>
       (counted \<and> \<not> flushes \<longrightarrow> inverted_index st' = memory)"
  proof (cases ?c)
    case False
    with process_file_skip [OF False] show ?thesis by (auto simp: Let_def)
  next
    case True
    then show ?thesis by (auto simp: process_file_counted Let_def)
  qed
  let ?l = "ingest_loop stem parse fs walk (start urls lens files)"
  have i: "flush_invariant ?l" by (rule inv_ingest_loop) (rule inv_start)
  then have p: "part_num ?l = doc_count ?l div 10000 + 1"
    and f: "partial_files ?l = map partial_index_name [1 ..< part_num ?l]"
    by (simp_all add: flush_invariant_def)
  have r: "process_all_documents stem parse fs walk urls lens files =
             (if inverted_index ?l \<noteq> [] then flush ?l else ?l)"
    by (simp add: process_all_documents_def Let_def)
  have fl: "partial_files (flush ?l) = partial_files ?l @ [partial_index_name (part_num ?l)]"
    "segments (flush ?l) = (segments ?l)(partial_index_name (part_num ?l) \<mapsto> inverted_index ?l)"
    by (simp_all add: flush_def save_partial_index_def Let_def)
  have k: "\<exists>k. partial_files (process_all_documents stem parse fs walk urls lens files) =
             map partial_index_name [1 ..< Suc k]"
  proof (cases "inverted_index ?l = []")
    case True
    with r f p have "partial_files (process_all_documents stem parse fs walk urls lens files) =
        map partial_index_name [1 ..< Suc (doc_count ?l div 10000)]" by simp
    then show ?thesis ..
  next
    case False
    with r f p fl have "partial_files (process_all_documents stem parse fs walk urls lens files) =
        map partial_index_name [1 ..< Suc (doc_count ?l div 10000 + 1)]" by simp
    then show ?thesis ..
  qed
  have run: "let last_st = ?l;
        result = process_all_documents stem parse fs walk urls lens files
    in part_num last_st = doc_count last_st div 10000 + 1 \<and>
       partial_files last_st = map partial_index_name [1 ..< part_num last_st] \<and>
       partial_files result =
         (if inverted_index last_st \<noteq> []
          then partial_files last_st @ [partial_index_name (part_num last_st)]
          else partial_files last_st) \<and>
       (inverted_index last_st \<noteq> [] \<longrightarrow>
          segments result =
            (segments last_st)(partial_index_name (part_num last_st) \<mapsto> inverted_index last_st)) \<and>
       (\<exists>k. partial_files result = map partial_index_name [1 ..< Suc k])"
    unfolding Let_def using p f k by (simp add: r fl)
  have n1: "\<forall>n. part_number_of (partial_index_name n) = n"
    by (simp add: part_number_of_name)
  have n2: "\<forall>m n. partial_index_name m = partial_index_name n \<longrightarrow> m = n"
    by (blast dest: partial_index_name_inj)
  have n3: "flush_invariant st \<longrightarrow> partial_index_name (part_num st) \<notin> set (partial_files st)"
  proof
    assume "flush_invariant st"
    then have "partial_files st = map partial_index_name [1 ..< part_num st]"
      by (simp add: flush_invariant_def)
    then show "partial_index_name (part_num st) \<notin> set (partial_files st)"
      by (auto dest: partial_index_name_inj)
  qed
  from k obtain j where j: "partial_files (process_all_documents stem parse fs walk urls lens files) =
             map partial_index_name [1 ..< Suc j]" ..
  have n4: "let result = process_all_documents stem parse fs walk urls lens files
     in distinct (partial_files result) \<and>
        (\<exists>k. map part_number_of (partial_files result) = [1 ..< Suc k])"
  proof -
    have "distinct (map partial_index_name [1 ..< Suc j])" by (rule distinct_names)
    moreover have "map part_number_of (map partial_index_name [1 ..< Suc j]) = [1 ..< Suc j]"
      by (rule numbers_of_names)
    then have "\<exists>k. map part_number_of (map partial_index_name [1 ..< Suc j]) = [1 ..< Suc k]" ..
    ultimately show ?thesis unfolding Let_def j by (rule conjI)
  qed
  from step run n1 n2 n3 n4 show ?thesis by (intro conjI)
qed


lemma small_reads:
  "path_join ''r'' ''a.json'' = ''r/a.json''"
  "path_join ''r'' ''b.json'' = ''r/b.json''"
  "path_join ''r'' ''c.json'' = ''r/c.json''"
  "endswith ''a.json'' ''.json''" "endswith ''b.json'' ''.json''"
  "endswith ''c.json'' ''.json''" "\<not> endswith ''d.txt'' ''.json''"
  "read_json_file small_fs ''r/a.json'' = (''dog'', ''http://one'')"
  "read_json_file small_fs ''r/b.json'' = ([], [])"
  "read_json_file small_fs ''r/c.json'' = (''<'', ''http://three'')"
  by (simp_all add: path_join_def endswith_def read_json_file_def small_fs_def)

lemma small_run:
  "doc_count (ingest_loop (\<lambda>w. w) small_parse small_fs small_walk (start [] [] Map.empty)) = 2"
  "inverted_index (ingest_loop (\<lambda>w. w) small_parse small_fs small_walk (start [] [] Map.empty))
     = [(''dog'', [(''r/a.json'', 1)])]"
  by (simp_all add: ingest_loop_def small_walk_def process_file_def small_reads Let_def start_def
        extract_text_from_html_def small_parse_def tokens_cat_dog tokenize_empty build_no_tokens
        build_inverted_index_def count_terms_def increment_def dict_get_def add_posting_def
        boost_def tf_weight_def)

theorem segment_flush_witness:
  "doc_count (process_file (\<lambda>w. w) small_parse small_fs ''r'' ''a.json'' before_flush) = 10000 \<and>
   partial_files (process_file (\<lambda>w. w) small_parse small_fs ''r'' ''a.json'' before_flush)
     = [''partial_index_1.json''] \<and>
   part_num (process_file (\<lambda>w. w) small_parse small_fs ''r'' ''a.json'' before_flush) = 2 \<and>
   inverted_index (process_file (\<lambda>w. w) small_parse small_fs ''r'' ''a.json'' before_flush) = [] \<and>
   partial_files (process_all_documents (\<lambda>w. w) small_parse small_fs small_walk [] [] Map.empty)
     = [''partial_index_1.json''] \<and>
   flush_invariant before_flush \<and>
   partial_index_name (part_num before_flush) \<notin> set (partial_files before_flush) \<and>
   part_number_of ''partial_index_1.json'' = 1"
proof -
  have d: "doc_count before_flush = 9999" "part_num before_flush = 1"
    "partial_files before_flush = []"
    by (simp_all add: before_flush_def)
  note T = segment_flush [of "''a.json''" small_fs "''r''" before_flush small_parse "\<lambda>w. w"
             small_walk "[]" "[]" Map.empty]
  have i: "flush_invariant before_flush"
    by (simp add: flush_invariant_def d)
  from conjunct1 [OF conjunct2 [OF conjunct2 [OF conjunct2 [OF conjunct2 [OF T]]]]] i
  have new: "partial_index_name (part_num before_flush) \<notin> set (partial_files before_flush)"
    by (rule mp)
  from conjunct1 [OF conjunct2 [OF conjunct2 [OF T]]]
  have "part_number_of (partial_index_name (Suc 0)) = Suc 0" by (rule spec)
  then have pn: "part_number_of ''partial_index_1.json'' = 1" by (simp add: name_1)
  from T have "doc_count (process_file (\<lambda>w. w) small_parse small_fs ''r'' ''a.json'' before_flush) = 10000 \<and>
   partial_files (process_file (\<lambda>w. w) small_parse small_fs ''r'' ''a.json'' before_flush)
     = [''partial_index_1.json''] \<and>
   part_num (process_file (\<lambda>w. w) small_parse small_fs ''r'' ''a.json'' before_flush) = 2 \<and>
   inverted_index (process_file (\<lambda>w. w) small_parse small_fs ''r'' ''a.json'' before_flush) = [] \<and>
   partial_files (process_all_documents (\<lambda>w. w) small_parse small_fs small_walk [] [] Map.empty)
     = [''partial_index_1.json'']"
    by (simp add: Let_def small_reads d name_1 small_run)
  with i new pn show ?thesis by (intro conjI) simp_all
qed

text \<open>
  Claim C7. A file that cannot be read leaves the state of the ingestion as it is, and
  the run over a corpus that holds it, in any directory and at any place, is the run
  over the corpus without it: the same state after the loops and the same result of
  \<open>process_all_documents\<close>. A document on
  which the extraction fails is processed as a document with empty text: it is
  counted, it adds no posting and no length, and the index in memory is the one before
  it, kept or written to the segment that is due. The whole run is the run of an
  extractor that returns empty text where the given one fails; it always returns.
\<close>

theorem failure_recovered:
  "(fs (path_join root_dir file) = Unreadable \<longrightarrow>
      process_file stem parse fs root_dir file st = st \<and>
      fold (process_file stem parse fs root_dir) (pre @ file # post) st =
      fold (process_file stem parse fs root_dir) (pre @ post) st \<and>
      ingest_loop stem parse fs (dirs_before @ (root_dir, pre @ file # post) # dirs_after) st =
      ingest_loop stem parse fs (dirs_before @ (root_dir, pre @ post) # dirs_after) st \<and>
      process_all_documents stem parse fs
        (dirs_before @ (root_dir, pre @ file # post) # dirs_after) urls lens files =
      process_all_documents stem parse fs
        (dirs_before @ (root_dir, pre @ post) # dirs_after) urls lens files) \<and>
   (parse content = None \<longrightarrow> extract_text_from_html parse content = ([], [])) \<and>
   (endswith file ''.json'' \<and> fs (path_join root_dir file) = Json_object (Some content) url \<and>
    content \<noteq> [] \<and> parse content = None \<longrightarrow>
      (let st' = process_file stem parse fs root_dir file st
       in doc_count st' = doc_count st + 1 \<and> doc_lengths st' = doc_lengths st \<and>
          (if (doc_count st + 1) mod 10000 = 0
           then inverted_index st' = [] \<and>
                segments st' = (segments st)(partial_index_name (part_num st) \<mapsto> inverted_index st)
           else inverted_index st' = inverted_index st \<and> segments st' = segments st))) \<and>
   process_all_documents stem parse fs walk urls lens files =
   process_all_documents stem
     (\<lambda>html. case parse html of None \<Rightarrow> Some ([], []) | Some r \<Rightarrow> Some r)
     fs walk urls lens files"
proof -
  have 1: "process_file stem parse fs root_dir file st = st \<and>
      fold (process_file stem parse fs root_dir) (pre @ file # post) st =
      fold (process_file stem parse fs root_dir) (pre @ post) st \<and>
      ingest_loop stem parse fs (dirs_before @ (root_dir, pre @ file # post) # dirs_after) st =
      ingest_loop stem parse fs (dirs_before @ (root_dir, pre @ post) # dirs_after) st \<and>
      process_all_documents stem parse fs
        (dirs_before @ (root_dir, pre @ file # post) # dirs_after) urls lens files =
      process_all_documents stem parse fs
        (dirs_before @ (root_dir, pre @ post) # dirs_after) urls lens files"
    if "fs (path_join root_dir file) = Unreadable"
  proof -
    from that have "fst (read_json_file fs (path_join root_dir file)) = []"
      by (simp add: read_json_file_def)
    then have skip: "process_file stem parse fs root_dir file s = s" for s
      by (simp add: process_file_skip)
    then have dir: "fold (process_file stem parse fs root_dir) (pre @ file # post) s =
        fold (process_file stem parse fs root_dir) (pre @ post) s" for s
      by simp
    then have loop: "ingest_loop stem parse fs (dirs_before @ (root_dir, pre @ file # post) # dirs_after) s =
        ingest_loop stem parse fs (dirs_before @ (root_dir, pre @ post) # dirs_after) s" for s
      by (simp add: ingest_loop_def)
    then have "process_all_documents stem parse fs
        (dirs_before @ (root_dir, pre @ file # post) # dirs_after) urls lens files =
      process_all_documents stem parse fs
        (dirs_before @ (root_dir, pre @ post) # dirs_after) urls lens files"
      by (simp add: process_all_documents_def)
    with skip dir loop show ?thesis by (intro conjI)
  qed
  have 2: "parse content = None \<longrightarrow> extract_text_from_html parse content = ([], [])"
    by (simp add: extract_text_from_html_def)
  have 3: "let st' = process_file stem parse fs root_dir file st
       in doc_count st' = doc_count st + 1 \<and> doc_lengths st' = doc_lengths st \<and>
          (if (doc_count st + 1) mod 10000 = 0
           then inverted_index st' = [] \<and>
                segments st' = (segments st)(partial_index_name (part_num st) \<mapsto> inverted_index st)
           else inverted_index st' = inverted_index st \<and> segments st' = segments st)"
    if "endswith file ''.json'' \<and> fs (path_join root_dir file) = Json_object (Some content) url \<and>
        content \<noteq> [] \<and> parse content = None"
  proof -
    from that have r: "read_json_file fs (path_join root_dir file) =
        (content, case url of None \<Rightarrow> [] | Some u \<Rightarrow> u)"
      by (simp add: read_json_file_def)
    from that have c: "endswith file ''.json''"
      "fst (read_json_file fs (path_join root_dir file)) \<noteq> []"
      by (simp_all add: r)
    from that have e: "extract_text_from_html parse content = ([], [])"
      by (simp add: extract_text_from_html_def)
    show ?thesis
      by (simp add: process_file_counted [OF c] r e tokenize_empty build_no_tokens Let_def)
  qed
  have 4: "process_all_documents stem parse fs walk urls lens files =
           process_all_documents stem
             (\<lambda>html. case parse html of None \<Rightarrow> Some ([], []) | Some r \<Rightarrow> Some r)
             fs walk urls lens files"
    by (simp add: process_all_documents_def ingest_loop_def process_file_total)
  from 1 2 3 4 show ?thesis by blast
qed

theorem failure_recovered_witness:
  "small_fs (path_join ''r'' ''b.json'') = Unreadable \<and>
   process_file (\<lambda>w. w) small_parse small_fs ''r'' ''b.json'' before_flush = before_flush \<and>
   small_parse ''<'' = None \<and>
   endswith ''c.json'' ''.json'' \<and>
   small_fs (path_join ''r'' ''c.json'') = Json_object (Some ''<'') (Some ''http://three'') \<and>
   inverted_index (process_file (\<lambda>w. w) small_parse small_fs ''r'' ''c.json''
      (start [] [] Map.empty)) = [] \<and>
   doc_count (process_file (\<lambda>w. w) small_parse small_fs ''r'' ''c.json''
      (start [] [] Map.empty)) = 1 \<and>
   process_all_documents (\<lambda>w. w) small_parse small_fs small_walk [] [] Map.empty =
   process_all_documents (\<lambda>w. w) small_parse small_fs
     [(''r'', [''a.json'', ''c.json'', ''d.txt''])] [] [] Map.empty"
proof -
  have a: "small_fs (path_join ''r'' ''b.json'') = Unreadable"
    and b: "small_parse ''<'' = None"
    and c: "endswith ''c.json'' ''.json''"
    and d: "small_fs (path_join ''r'' ''c.json'') = Json_object (Some ''<'') (Some ''http://three'')"
    by (simp_all add: small_reads small_fs_def small_parse_def)
  note T1 = failure_recovered [of small_fs "''r''" "''b.json''" "\<lambda>w. w" small_parse before_flush
              "[''a.json'']" "[''c.json'', ''d.txt'']" "[]" "[]" "[]" "[]" Map.empty]
  note T2 = failure_recovered [of small_fs "''r''" "''c.json''" "\<lambda>w. w" small_parse
              "start [] [] Map.empty" "[]" "[]" "[]" "[]" "[]" "[]" Map.empty
              "''<''" "Some ''http://three''"]
  have e: "process_file (\<lambda>w. w) small_parse small_fs ''r'' ''b.json'' before_flush = before_flush"
    using conjunct1 [OF T1] a by simp
  have f: "inverted_index (process_file (\<lambda>w. w) small_parse small_fs ''r'' ''c.json''
      (start [] [] Map.empty)) = [] \<and>
   doc_count (process_file (\<lambda>w. w) small_parse small_fs ''r'' ''c.json''
      (start [] [] Map.empty)) = 1"
    using conjunct1 [OF conjunct2 [OF conjunct2 [OF T2]]] b c d
    by (simp add: Let_def start_def)
  have g: "process_all_documents (\<lambda>w. w) small_parse small_fs small_walk [] [] Map.empty =
     process_all_documents (\<lambda>w. w) small_parse small_fs
       [(''r'', [''a.json'', ''c.json'', ''d.txt''])] [] [] Map.empty"
    using mp [OF conjunct1 [OF T1] a] by (simp add: small_walk_def)
  from a e b c d f g show ?thesis by (intro conjI) simp_all
qed


end
